theory Spec2Isabelle
  imports Main "HOL-Library.Word" "HOL-Library.Sublist" "HOL-Library.AList"
begin

unbundle bit_operations_syntax

section \<open>Strings of the service\<close>

text \<open>
  The graph service (\<^verbatim>\<open>src/graph.ts\<close>) works on JavaScript strings: sequences of
  UTF-16 code units. A code unit is a 16-bit word, a string a list of them, so that
  \<^verbatim>\<open>length\<close> is the list's length and the character classes of the regular
  expressions are ranges of words. \<open>js\<close> reads an ASCII literal as such a string.
\<close>

type_synonym jchar = "16 word"
type_synonym jstring = "jchar list"

definition js :: "string \<Rightarrow> jstring" where
  "js s = map of_char s"

definition NL :: jchar where "NL = 0x0A"
definition SLASH :: jchar where "SLASH = 0x2F"
definition DOT :: jchar where "DOT = 0x2E"

text \<open>\<^verbatim>\<open>s.split(c)\<close> for a separator of one code unit: never empty, \<^verbatim>\<open>"".split(c)\<close> is \<^verbatim>\<open>[""]\<close>.\<close>

fun split_on :: "'a \<Rightarrow> 'a list \<Rightarrow> 'a list list" where
  "split_on c [] = [[]]"
| "split_on c (x # xs) =
     (if x = c then [] # split_on c xs
      else (case split_on c xs of [] \<Rightarrow> [[x]] | y # ys \<Rightarrow> (x # y) # ys))"

text \<open>\<^verbatim>\<open>xs.join(sep)\<close>.\<close>

fun join_with :: "'a list \<Rightarrow> 'a list list \<Rightarrow> 'a list" where
  "join_with sep [] = []"
| "join_with sep [x] = x"
| "join_with sep (x # y # ys) = x @ sep @ join_with sep (y # ys)"

text \<open>\<^verbatim>\<open>s.includes(t)\<close> and \<^verbatim>\<open>s.startsWith(t)\<close>.\<close>

definition startsWith :: "'a list \<Rightarrow> 'a list \<Rightarrow> bool" where
  "startsWith s t = (take (length t) s = t)"

fun includes_js :: "'a list \<Rightarrow> 'a list \<Rightarrow> bool" where
  "includes_js [] t = (t = [])"
| "includes_js (x # xs) t = (startsWith (x # xs) t \<or> includes_js xs t)"

text \<open>\<^verbatim>\<open>s.replace(pat, rep)\<close> with a string pattern: the first occurrence only.\<close>

fun replace_first :: "'a list \<Rightarrow> 'a list \<Rightarrow> 'a list \<Rightarrow> 'a list" where
  "replace_first [] pat rep = (if pat = [] then rep else [])"
| "replace_first (x # xs) pat rep =
     (if startsWith (x # xs) pat then rep @ drop (length pat) (x # xs)
      else x # replace_first xs pat rep)"

text \<open>\<^verbatim>\<open>s.replace(/-/g, '_')\<close>.\<close>

definition dashes_to_underscores :: "jstring \<Rightarrow> jstring" where
  "dashes_to_underscores s = map (\<lambda>c. if c = 0x2D then 0x5F else c) s"

text \<open>
  White space as \<^verbatim>\<open>\s\<close>, \<^verbatim>\<open>trim\<close> and \<^verbatim>\<open>trimEnd\<close> see it (ECMAScript WhiteSpace and
  LineTerminator), and the line terminators that \<^verbatim>\<open>.\<close> does not match.
\<close>

definition is_space :: "jchar \<Rightarrow> bool" where
  "is_space c \<longleftrightarrow>
     (0x09 \<le> c \<and> c \<le> 0x0D) \<or> c = 0x20 \<or> c = 0xA0 \<or> c = 0x1680 \<or>
     (0x2000 \<le> c \<and> c \<le> 0x200A) \<or> c = 0x2028 \<or> c = 0x2029 \<or> c = 0x202F \<or>
     c = 0x205F \<or> c = 0x3000 \<or> c = 0xFEFF"

definition is_line_terminator :: "jchar \<Rightarrow> bool" where
  "is_line_terminator c \<longleftrightarrow> c = 0x0A \<or> c = 0x0D \<or> c = 0x2028 \<or> c = 0x2029"

definition trimEnd :: "jstring \<Rightarrow> jstring" where
  "trimEnd s = rev (dropWhile is_space (rev s))"

definition trim :: "jstring \<Rightarrow> jstring" where
  "trim s = dropWhile is_space (trimEnd s)"

text \<open>
  \<^verbatim>\<open>Buffer.byteLength(s, 'utf-8')\<close>, a JavaScript number: a surrogate pair is one code
  point of four bytes, a lone surrogate is written as U+FFFD (three bytes). \<open>toWellFormed\<close> is the string that
  comes back when the bytes are decoded again.
\<close>

definition is_high :: "jchar \<Rightarrow> bool" where
  "is_high c \<longleftrightarrow> 0xD800 \<le> c \<and> c \<le> 0xDBFF"

definition is_low :: "jchar \<Rightarrow> bool" where
  "is_low c \<longleftrightarrow> 0xDC00 \<le> c \<and> c \<le> 0xDFFF"

definition unit_bytes :: "jchar \<Rightarrow> int" where
  "unit_bytes c = (if c < 0x80 then 1 else if c < 0x800 then 2 else 3)"

fun byteLength :: "jstring \<Rightarrow> int" where
  "byteLength [] = 0"
| "byteLength [c] = unit_bytes c"
| "byteLength (c # d # cs) =
     (if is_high c \<and> is_low d then 4 + byteLength cs
      else unit_bytes c + byteLength (d # cs))"

fun toWellFormed :: "jstring \<Rightarrow> jstring" where
  "toWellFormed [] = []"
| "toWellFormed [c] = (if is_high c \<or> is_low c then [0xFFFD] else [c])"
| "toWellFormed (c # d # cs) =
     (if is_high c \<and> is_low d then c # d # toWellFormed cs
      else if is_high c \<or> is_low c then 0xFFFD # toWellFormed (d # cs)
      else c # toWellFormed (d # cs))"

section \<open>Paths (\<^verbatim>\<open>node:path\<close>, POSIX)\<close>

text \<open>
  \<^verbatim>\<open>normalizeString\<close> of \<^verbatim>\<open>node:path\<close>, on the segments between the slashes: empty
  segments and \<^verbatim>\<open>.\<close> vanish, \<^verbatim>\<open>..\<close> removes the segment before it, and is kept in front
  only where the path may rise above its start (\<open>allowAbove\<close>, for a relative path). The
  accumulator holds the result reversed.
\<close>

fun normSegs :: "bool \<Rightarrow> jstring list \<Rightarrow> jstring list \<Rightarrow> jstring list" where
  "normSegs allowAbove acc [] = rev acc"
| "normSegs allowAbove acc (s # ss) =
     (if s = [] \<or> s = [DOT] then normSegs allowAbove acc ss
      else if s = [DOT, DOT] then
        (case acc of
           [] \<Rightarrow> normSegs allowAbove (if allowAbove then [[DOT, DOT]] else []) ss
         | t # ts \<Rightarrow>
             if t = [DOT, DOT] then normSegs allowAbove (if allowAbove then s # acc else acc) ss
             else normSegs allowAbove ts ss)
      else normSegs allowAbove (s # acc) ss)"

definition normalizeString :: "jstring \<Rightarrow> bool \<Rightarrow> jstring" where
  "normalizeString p allowAbove = join_with [SLASH] (normSegs allowAbove [] (split_on SLASH p))"

definition isAbsolute :: "jstring \<Rightarrow> bool" where
  "isAbsolute p = (case p of [] \<Rightarrow> False | c # _ \<Rightarrow> c = SLASH)"

definition path_normalize :: "jstring \<Rightarrow> jstring" where
  "path_normalize p =
     (if p = [] then [DOT]
      else let absolute = isAbsolute p;
               trailing = (last p = SLASH);
               q = normalizeString p (\<not> absolute)
           in if q = [] then (if absolute then [SLASH] else if trailing then [DOT, SLASH] else [DOT])
              else (if absolute then [SLASH] else []) @ q @ (if trailing then [SLASH] else []))"

text \<open>\<^verbatim>\<open>join(a, b)\<close>: empty arguments are left out, the rest joined by a slash and normalised.\<close>

definition path_join :: "jstring \<Rightarrow> jstring \<Rightarrow> jstring" where
  "path_join a b =
     (if a = [] \<and> b = [] then [DOT]
      else if a = [] then path_normalize b
      else if b = [] then path_normalize a
      else path_normalize (a @ [SLASH] @ b))"

text \<open>
  \<^verbatim>\<open>resolve(p)\<close>: a relative path is taken from the working directory of the process,
  which is a parameter here; the result has no trailing slash.
\<close>

definition path_resolve :: "jstring \<Rightarrow> jstring \<Rightarrow> jstring" where
  "path_resolve cwd p =
     (let r0 = (if p = [] then [] else p @ [SLASH]);
          r1 = (if isAbsolute p \<or> cwd = [] then r0 else cwd @ [SLASH] @ r0);
          absolute = (isAbsolute p \<or> isAbsolute cwd);
          q = normalizeString r1 (\<not> absolute)
      in if absolute then SLASH # q else if q = [] then [DOT] else q)"

text \<open>
  \<^verbatim>\<open>extname\<close> and \<^verbatim>\<open>basename(p, ext)\<close> on the paths the service passes: a directory
  entry, or a resolved path, neither ending in a slash. The extension starts at the last
  dot of the last segment, unless that dot opens the segment or the segment is \<^verbatim>\<open>..\<close>.
\<close>

definition last_segment :: "jstring \<Rightarrow> jstring" where
  "last_segment p = last (split_on SLASH p)"

definition extname :: "jstring \<Rightarrow> jstring" where
  "extname p =
     (let seg = last_segment p;
          stem = rev (dropWhile (\<lambda>c. c \<noteq> DOT) (rev seg))
      in if stem = [] \<or> stem = [DOT] \<or> seg = [DOT, DOT] then []
         else DOT # rev (takeWhile (\<lambda>c. c \<noteq> DOT) (rev seg)))"

definition basename :: "jstring \<Rightarrow> jstring \<Rightarrow> jstring" where
  "basename p ext =
     (if ext \<noteq> [] \<and> p = ext then []
      else let seg = last_segment p
           in if ext \<noteq> [] \<and> length ext < length seg \<and> suffix ext seg
              then take (length seg - length ext) seg else seg)"


section \<open>Errors\<close>

text \<open>
  Every \<^verbatim>\<open>throw\<close> of the service is a value. The constructors follow the taxonomy of the
  specification; \<open>message\<close> is the text of the JavaScript \<^verbatim>\<open>Error\<close>, which the service
  itself inspects in two \<^verbatim>\<open>catch\<close> blocks. A failure of a filesystem call carries Node's
  code, the system call and the path as it was passed, and Node prints all three.
\<close>

datatype name_fault = TooLong | EmptyName | ForbiddenChars
datatype link_fault = SymbolicLink | NotRegularFile | HardLink
datatype prop_fault = KeyForbidden | ValueNewline | KeyShape
datatype fs_code = ENOENT | EEXIST | EISDIR | ENOTDIR | ELOOP | EINVAL

datatype error =
    InvalidName name_fault
  | PathEscape
  | LinkAttack link_fault
  | ContentTooLarge int
  | AlreadyExists jstring
  | NotFound jstring
  | QueryTooLong
  | InvalidProperty prop_fault
  | InvalidDate
  | Unexpected fs_code jstring jstring

fun digits :: "nat \<Rightarrow> jstring" where
  "digits n = (if n < 10 then [0x30 + of_nat n] else digits (n div 10) @ [0x30 + of_nat (n mod 10)])"

fun code_text :: "fs_code \<Rightarrow> jstring" where
  "code_text ENOENT = js ''ENOENT: no such file or directory''"
| "code_text EEXIST = js ''EEXIST: file already exists''"
| "code_text EISDIR = js ''EISDIR: illegal operation on a directory''"
| "code_text ENOTDIR = js ''ENOTDIR: not a directory''"
| "code_text ELOOP = js ''ELOOP: too many symbolic links encountered''"
| "code_text EINVAL = js ''The argument 'path' must be a string, Uint8Array, or URL without null bytes.''"

fun message :: "error \<Rightarrow> jstring" where
  "message (InvalidName TooLong) = js ''Invalid page name: too long (max 200 characters)''"
| "message (InvalidName EmptyName) = js ''Invalid page name: cannot be empty''"
| "message (InvalidName ForbiddenChars) = js ''Invalid page name: contains forbidden characters''"
| "message PathEscape = js ''Access denied: path outside graph directory''"
| "message (LinkAttack SymbolicLink) = js ''Access denied: symbolic links not allowed''"
| "message (LinkAttack NotRegularFile) = js ''Access denied: not a regular file''"
| "message (LinkAttack HardLink) = js ''Access denied: hardlinks not allowed''"
| "message (ContentTooLarge n) =
     js ''Content too large: '' @ digits (nat ((n + 524288) div 1048576)) @ js ''MB exceeds limit of 10MB''"
| "message (AlreadyExists name) = js ''Page already exists: '' @ name"
| "message (NotFound name) = js ''Page not found: '' @ name"
| "message QueryTooLong = js ''Search query too long (max 1000 characters)''"
| "message (InvalidProperty KeyForbidden) = js ''Invalid property key: contains forbidden characters''"
| "message (InvalidProperty ValueNewline) = js ''Invalid property value: contains newline characters''"
| "message (InvalidProperty KeyShape) =
     js ''Invalid property key: must start with letter and contain only alphanumeric, dash, underscore''"
| "message InvalidDate = js ''Invalid date format: use YYYY-MM-DD''"
| "message (Unexpected c syscall path) =
     code_text c @ js '', '' @ syscall @ js '' '' @ [0x27] @ path @ [0x27]"

section \<open>The file store\<close>

text \<open>
  The directory tree as the service sees it: the entries reachable by a normalised
  absolute path, in the order the directory lists them. A file holds its decoded text
  and its hard-link count. When a file has further names in the store, one path holds
  the file and each further path holds \<open>Hardlink k\<close>, with \<open>k\<close> the path that holds it:
  all names show the same text and the same link count, and what is written through one
  name is read through every other. A symbolic link is followed when it is the last
  component of a path, as \<^verbatim>\<open>stat\<close>, \<^verbatim>\<open>readFile\<close> and \<^verbatim>\<open>writeFile\<close> do; two paths that reach
  one file through a linked directory are two entries here. \<open>cwd\<close> is the working
  directory of the process, against which the system resolves a relative path.
\<close>

datatype entry = File jstring nat | Dir | Symlink jstring | Hardlink jstring

type_synonym fs = "(jstring \<times> entry) list"

record stats =
  isSymbolicLink :: bool
  isFile :: bool
  nlink :: nat

fun stats_of :: "entry \<Rightarrow> stats" where
  "stats_of (File c n) = \<lparr>isSymbolicLink = False, isFile = True, nlink = n\<rparr>"
| "stats_of Dir = \<lparr>isSymbolicLink = False, isFile = False, nlink = 2\<rparr>"
| "stats_of (Symlink t) = \<lparr>isSymbolicLink = True, isFile = False, nlink = 1\<rparr>"
| "stats_of (Hardlink k) = \<lparr>isSymbolicLink = False, isFile = True, nlink = 2\<rparr>"

definition parent :: "jstring \<Rightarrow> jstring" where
  "parent k = (let q = join_with [SLASH] (butlast (split_on SLASH k)) in if q = [] then [SLASH] else q)"

text \<open>
  What a path names: the entry at the path, or for a further name of a file the file
  itself, with the path that holds it. A further name whose path holds no file names
  nothing. The calls below look an entry up through \<open>named\<close>, so that none of them meets
  a further name as an entry.
\<close>

definition named :: "fs \<Rightarrow> jstring \<Rightarrow> (jstring \<times> entry) option" where
  "named fs k =
     (case map_of fs k of
        None \<Rightarrow> None
      | Some (Hardlink k0) \<Rightarrow>
          (case map_of fs k0 of Some (File c n) \<Rightarrow> Some (k0, File c n) | _ \<Rightarrow> None)
      | Some e \<Rightarrow> Some (k, e))"

text \<open>
  Following a link at the end of a path, at most 40 times as Linux does. The result is
  the path that holds the entry reached, and the entry, if there is one.
\<close>

fun follow :: "nat \<Rightarrow> fs \<Rightarrow> jstring \<Rightarrow> (jstring \<times> entry option) option" where
  "follow 0 fs k = None"
| "follow (Suc n) fs k =
     (case named fs k of
        None \<Rightarrow> Some (k, None)
      | Some (_, Symlink t) \<Rightarrow> follow n fs (path_resolve (parent k) t)
      | Some (k0, e) \<Rightarrow> Some (k0, Some e))"

definition is_dir :: "fs \<Rightarrow> jstring \<Rightarrow> bool" where
  "is_dir fs k = (k = [SLASH] \<or> (case follow 40 fs k of Some (_, Some Dir) \<Rightarrow> True | _ \<Rightarrow> False))"

text \<open>
  The directories on the way to a path, from the root down, the path itself last; and
  the code of a call that finds nothing at a path: \<^verbatim>\<open>ENOTDIR\<close> when the way leads through
  an entry that is no directory, \<^verbatim>\<open>ENOENT\<close> when a directory of the way or the last
  component is missing.
\<close>

definition ancestors :: "jstring \<Rightarrow> jstring list" where
  "ancestors k =
     map (\<lambda>segs. SLASH # join_with [SLASH] segs)
       (tl (prefixes (filter (\<lambda>s. s \<noteq> []) (split_on SLASH k))))"

fun way_code :: "fs \<Rightarrow> jstring list \<Rightarrow> fs_code" where
  "way_code fs [] = ENOENT"
| "way_code fs (a # rest) =
     (case follow 40 fs a of
        None \<Rightarrow> ELOOP
      | Some (_, None) \<Rightarrow> ENOENT
      | Some (_, Some Dir) \<Rightarrow> way_code fs rest
      | Some (_, Some _) \<Rightarrow> ENOTDIR)"

definition missing :: "fs \<Rightarrow> jstring \<Rightarrow> fs_code" where
  "missing fs k = way_code fs (butlast (ancestors k))"

definition lstat :: "jstring \<Rightarrow> fs \<Rightarrow> jstring \<Rightarrow> error + stats" where
  "lstat cwd fs p =
     (if 0 \<in> set p then Inl (Unexpected EINVAL (js ''lstat'') p)
      else case named fs (path_resolve cwd p) of
        None \<Rightarrow> Inl (Unexpected (missing fs (path_resolve cwd p)) (js ''lstat'') p)
      | Some (_, e) \<Rightarrow> Inr (stats_of e))"

definition stat :: "jstring \<Rightarrow> fs \<Rightarrow> jstring \<Rightarrow> error + stats" where
  "stat cwd fs p =
     (if 0 \<in> set p then Inl (Unexpected EINVAL (js ''stat'') p)
      else case follow 40 fs (path_resolve cwd p) of
        None \<Rightarrow> Inl (Unexpected ELOOP (js ''stat'') p)
      | Some (k, None) \<Rightarrow> Inl (Unexpected (missing fs k) (js ''stat'') p)
      | Some (_, Some e) \<Rightarrow> Inr (stats_of e))"

definition readFile :: "jstring \<Rightarrow> fs \<Rightarrow> jstring \<Rightarrow> error + jstring" where
  "readFile cwd fs p =
     (if 0 \<in> set p then Inl (Unexpected EINVAL (js ''open'') p)
      else case follow 40 fs (path_resolve cwd p) of
        None \<Rightarrow> Inl (Unexpected ELOOP (js ''open'') p)
      | Some (k, None) \<Rightarrow> Inl (Unexpected (missing fs k) (js ''open'') p)
      | Some (_, Some (File c n)) \<Rightarrow> Inr c
      | Some (_, Some _) \<Rightarrow> Inl (Unexpected EISDIR (js ''read'') p))"

text \<open>
  \<^verbatim>\<open>writeFile(p, text, 'utf-8')\<close> replaces the text of an existing file, at the path that
  holds it, so for all its names; it creates a missing file in an existing directory.
  With the flag \<^verbatim>\<open>wx\<close> it creates only, and any entry at the path, a link included, is
  \<^verbatim>\<open>EEXIST\<close>. The text goes through UTF-8.
\<close>

definition writeFile :: "jstring \<Rightarrow> fs \<Rightarrow> jstring \<Rightarrow> jstring \<Rightarrow> error + fs" where
  "writeFile cwd fs p text =
     (if 0 \<in> set p then Inl (Unexpected EINVAL (js ''open'') p)
      else case follow 40 fs (path_resolve cwd p) of
        None \<Rightarrow> Inl (Unexpected ELOOP (js ''open'') p)
      | Some (k, None) \<Rightarrow>
          if is_dir fs (parent k) then Inr (fs @ [(k, File (toWellFormed text) 1)])
          else Inl (Unexpected (missing fs k) (js ''open'') p)
      | Some (k, Some (File c n)) \<Rightarrow> Inr (AList.update k (File (toWellFormed text) n) fs)
      | Some (k, Some _) \<Rightarrow> Inl (Unexpected EISDIR (js ''open'') p))"

definition writeFile_wx :: "jstring \<Rightarrow> fs \<Rightarrow> jstring \<Rightarrow> jstring \<Rightarrow> error + fs" where
  "writeFile_wx cwd fs p text =
     (if 0 \<in> set p then Inl (Unexpected EINVAL (js ''open'') p)
      else let k = path_resolve cwd p in
        case map_of fs k of
          Some _ \<Rightarrow> Inl (Unexpected EEXIST (js ''open'') p)
        | None \<Rightarrow>
            if is_dir fs (parent k) then Inr (fs @ [(k, File (toWellFormed text) 1)])
            else Inl (Unexpected (missing fs k) (js ''open'') p))"




text \<open>
  \<^verbatim>\<open>mkdir(p, {recursive: true})\<close>: every missing directory on the way is created, from
  the root down; a failure leaves the directories made before it.
\<close>

fun mkdir_chain :: "jstring \<Rightarrow> fs \<Rightarrow> jstring list \<Rightarrow> (error + unit) \<times> fs" where
  "mkdir_chain p fs [] = (Inr (), fs)"
| "mkdir_chain p fs (k # ks) =
     (case follow 40 fs k of
        None \<Rightarrow> (Inl (Unexpected ELOOP (js ''mkdir'') p), fs)
      | Some (_, Some Dir) \<Rightarrow> mkdir_chain p fs ks
      | Some (_, Some _) \<Rightarrow>
          (Inl (Unexpected (if ks = [] then EEXIST else ENOTDIR) (js ''mkdir'') p), fs)
      | Some (_, None) \<Rightarrow>
          if map_of fs k = None then mkdir_chain p (fs @ [(k, Dir)]) ks
          else (Inl (Unexpected ENOENT (js ''mkdir'') p), fs))"

definition mkdir_recursive :: "jstring \<Rightarrow> fs \<Rightarrow> jstring \<Rightarrow> (error + unit) \<times> fs" where
  "mkdir_recursive cwd fs p =
     (if 0 \<in> set p then (Inl (Unexpected EINVAL (js ''mkdir'') p), fs)
      else mkdir_chain p fs (ancestors (path_resolve cwd p)))"

definition readdir :: "jstring \<Rightarrow> fs \<Rightarrow> jstring \<Rightarrow> error + jstring list" where
  "readdir cwd fs p =
     (if 0 \<in> set p then Inl (Unexpected EINVAL (js ''scandir'') p)
      else let k = path_resolve cwd p in
        if is_dir fs k
        then Inr (map (\<lambda>(k', e). last_segment k') (filter (\<lambda>(k', e). k' \<noteq> k \<and> parent k' = k) fs))
        else Inl (Unexpected (case follow 40 fs k of
                                None \<Rightarrow> ELOOP
                              | Some (k', None) \<Rightarrow> missing fs k'
                              | Some _ \<Rightarrow> ENOTDIR) (js ''scandir'') p))"


section \<open>The graph service: guards\<close>

text \<open>The three fields of \<^verbatim>\<open>GraphService\<close>, set by its constructor.\<close>

record service =
  graphPath :: jstring
  pagesPath :: jstring
  journalsPath :: jstring

definition GraphService :: "jstring \<Rightarrow> service" where
  "GraphService gp =
     \<lparr>graphPath = gp, pagesPath = path_join gp (js ''pages''), journalsPath = path_join gp (js ''journals'')\<rparr>"

definition MAX_CONTENT_SIZE :: int where
  "MAX_CONTENT_SIZE = 10 * 1024 * 1024"

definition MAX_DEPTH :: int where
  "MAX_DEPTH = 10"

text \<open>
  \<^verbatim>\<open>validatePageName\<close>: the length cap, the emptiness test, the allow-list
  (ASCII letters and digits, Hangul syllables U+AC00 to U+D7A3, Hangul jamo U+3131 to
  U+3163, white space, and the punctuation \<^verbatim>\<open>_-().,'!@#$%&+=[]{}\<close>; at least one
  character) and the deny-list, in this order.
\<close>

definition safe_char :: "jchar \<Rightarrow> bool" where
  "safe_char c \<longleftrightarrow>
     (0x61 \<le> c \<and> c \<le> 0x7A) \<or> (0x41 \<le> c \<and> c \<le> 0x5A) \<or> (0x30 \<le> c \<and> c \<le> 0x39) \<or>
     (0xAC00 \<le> c \<and> c \<le> 0xD7A3) \<or> (0x3131 \<le> c \<and> c \<le> 0x314E) \<or>
     (0x314F \<le> c \<and> c \<le> 0x3163) \<or> is_space c \<or>
     c \<in> set (js ''_-().,'' @ [0x27] @ js ''!@#$%&+=[]{}'')"

definition dangerousPatterns :: "jstring list" where
  "dangerousPatterns =
     [js ''..'', js ''/'', [0x5C], [0x00], js '':'', js ''*'', js ''?'', [0x22], js ''<'', js ''>'', js ''|'']"

definition validatePageName :: "jstring \<Rightarrow> error + unit" where
  "validatePageName name =
     (if length name > 200 then Inl (InvalidName TooLong)
      else if length (trim name) = 0 then Inl (InvalidName EmptyName)
      else if \<not> (name \<noteq> [] \<and> list_all safe_char name) then Inl (InvalidName ForbiddenChars)
      else if list_ex (\<lambda>pattern. includes_js name pattern) dangerousPatterns
        then Inl (InvalidName ForbiddenChars)
      else Inr ())"

definition validateContentSize :: "jstring \<Rightarrow> error + unit" where
  "validateContentSize text =
     (let byteSize = byteLength text
      in if byteSize > MAX_CONTENT_SIZE then Inl (ContentTooLarge byteSize) else Inr ())"

text \<open>
  \<^verbatim>\<open>checkSymlink\<close>: the \<^verbatim>\<open>catch\<close> swallows every failure of \<^verbatim>\<open>lstat\<close> whose message
  does not contain the words \<^verbatim>\<open>symbolic links\<close>; the message of such a failure quotes
  the path.
\<close>

definition checkSymlink :: "jstring \<Rightarrow> fs \<Rightarrow> jstring \<Rightarrow> error + unit" where
  "checkSymlink cwd fs filePath =
     (case lstat cwd fs filePath of
        Inr st \<Rightarrow> if isSymbolicLink st then Inl (LinkAttack SymbolicLink) else Inr ()
      | Inl e \<Rightarrow> if includes_js (message e) (js ''symbolic links'') then Inl e else Inr ())"

definition checkRegularFile :: "jstring \<Rightarrow> fs \<Rightarrow> jstring \<Rightarrow> error + unit" where
  "checkRegularFile cwd fs filePath =
     (case lstat cwd fs filePath of
        Inl e \<Rightarrow> Inl e
      | Inr st \<Rightarrow>
          if isSymbolicLink st then Inl (LinkAttack SymbolicLink)
          else if \<not> isFile st then Inl (LinkAttack NotRegularFile)
          else if nlink st > 1 then Inl (LinkAttack HardLink)
          else Inr ())"

definition validatePath :: "jstring \<Rightarrow> service \<Rightarrow> jstring \<Rightarrow> error + jstring" where
  "validatePath cwd svc filePath =
     (let normalizedPath = path_resolve cwd filePath;
          normalizedGraphPath = path_resolve cwd (graphPath svc)
      in if \<not> startsWith normalizedPath (normalizedGraphPath @ [SLASH]) \<and>
            normalizedPath \<noteq> normalizedGraphPath
         then Inl PathEscape
         else Inr normalizedPath)"

text \<open>
  \<^verbatim>\<open>resolvePath\<close>. One \<^verbatim>\<open>try\<close> block of it: \<open>None\<close> when the \<^verbatim>\<open>catch\<close> swallows the
  failure and the next candidate is tried, \<open>Some\<close> of the path returned or of the
  error thrown again (its message contains \<^verbatim>\<open>Access denied\<close>).
\<close>

definition try_candidate :: "jstring \<Rightarrow> service \<Rightarrow> fs \<Rightarrow> jstring \<Rightarrow> (error + jstring) option" where
  "try_candidate cwd svc fs candidate =
     (case validatePath cwd svc candidate of
        Inl e \<Rightarrow> if includes_js (message e) (js ''Access denied'') then Some (Inl e) else None
      | Inr validPath \<Rightarrow>
          (case stat cwd fs validPath of
             Inl e \<Rightarrow> if includes_js (message e) (js ''Access denied'') then Some (Inl e) else None
           | Inr _ \<Rightarrow> Some (Inr validPath)))"

definition resolvePath :: "jstring \<Rightarrow> service \<Rightarrow> fs \<Rightarrow> jstring \<Rightarrow> error + jstring" where
  "resolvePath cwd svc fs pathOrName =
     (if SLASH \<in> set pathOrName then validatePath cwd svc (path_join (graphPath svc) pathOrName)
      else case try_candidate cwd svc fs (path_join (pagesPath svc) (pathOrName @ js ''.md'')) of
        Some r \<Rightarrow> r
      | None \<Rightarrow>
       (case try_candidate cwd svc fs
               (path_join (journalsPath svc) (dashes_to_underscores pathOrName @ js ''.md'')) of
          Some r \<Rightarrow> r
        | None \<Rightarrow>
         (case try_candidate cwd svc fs (path_join (journalsPath svc) (pathOrName @ js ''.md'')) of
            Some r \<Rightarrow> r
          | None \<Rightarrow> Inl (NotFound pathOrName))))"

text \<open>
  What the specification means by a location inside the root: the path is the root, or
  its segments continue the root's segments by at least one.
\<close>

definition segments :: "jstring \<Rightarrow> jstring list" where
  "segments p = filter (\<lambda>s. s \<noteq> []) (split_on SLASH p)"

definition inside_root :: "jstring \<Rightarrow> jstring \<Rightarrow> bool" where
  "inside_root root q \<longleftrightarrow> q = root \<or> strict_prefix (segments root) (segments q)"

section \<open>The graph service: parsing a document\<close>

text \<open>A JavaScript \<^verbatim>\<open>Set\<close> keeps the order of first insertion.\<close>

definition set_add :: "'a \<Rightarrow> 'a list \<Rightarrow> 'a list" where
  "set_add x xs = (if x \<in> set xs then xs else xs @ [x])"

text \<open>
  \<^verbatim>\<open>extractTags\<close>: the global expression \<^verbatim>\<open>/#([a-zA-Z0-9_\-/X]+)/g\<close>, where X
  stands for the range of Hangul syllables, U+AC00 to U+D7A3.
  \<open>match_tag\<close> is one attempt of the expression at the start of the text: the tag and
  the text after the match. A failed attempt moves on by one code unit, a match by its
  length.
\<close>

definition tag_char :: "jchar \<Rightarrow> bool" where
  "tag_char c \<longleftrightarrow>
     (0x61 \<le> c \<and> c \<le> 0x7A) \<or> (0x41 \<le> c \<and> c \<le> 0x5A) \<or> (0x30 \<le> c \<and> c \<le> 0x39) \<or>
     c = 0x5F \<or> c = 0x2D \<or> c = 0x2F \<or> (0xAC00 \<le> c \<and> c \<le> 0xD7A3)"

definition match_tag :: "jstring \<Rightarrow> (jstring \<times> jstring) option" where
  "match_tag s =
     (case s of
        [] \<Rightarrow> None
      | c # cs \<Rightarrow>
          if c = 0x23 \<and> takeWhile tag_char cs \<noteq> []
          then Some (takeWhile tag_char cs, dropWhile tag_char cs) else None)"

lemma match_tag_shorter: "match_tag s = Some (t, rest) \<Longrightarrow> length rest < length s"
  by (auto simp: match_tag_def less_Suc_eq_le length_dropWhile_le split: list.splits if_splits)

function scan_tags :: "jstring \<Rightarrow> jstring list \<Rightarrow> jstring list" where
  "scan_tags [] tags = tags"
| "scan_tags (c # cs) tags =
     (case match_tag (c # cs) of
        Some (t, rest) \<Rightarrow> scan_tags rest (set_add t tags)
      | None \<Rightarrow> scan_tags cs tags)"
  by pat_completeness auto
termination
  by (relation "measure (\<lambda>(s, tags). length s)") (auto dest: match_tag_shorter)

definition extractTags :: "jstring \<Rightarrow> jstring list" where
  "extractTags content = scan_tags content []"

text \<open>
  \<^verbatim>\<open>extractLinks\<close>: \<^verbatim>\<open>/\[\[([^\]|]+)(?:\|[^\]]+)?\]\]/g\<close>. Both character classes are
  followed by a character outside the class, so the greedy match is the only one and
  backtracking finds no other.
\<close>

definition match_link :: "jstring \<Rightarrow> (jstring \<times> jstring) option" where
  "match_link s =
     (if startsWith s (js ''[['') then
        let s1 = drop 2 s;
            target = takeWhile (\<lambda>c. c \<noteq> 0x5D \<and> c \<noteq> 0x7C) s1;
            r1 = dropWhile (\<lambda>c. c \<noteq> 0x5D \<and> c \<noteq> 0x7C) s1
        in if target = [] then None
           else if startsWith r1 (js ''|'') then
             let s2 = drop 1 r1;
                 display = takeWhile (\<lambda>c. c \<noteq> 0x5D) s2;
                 r2 = dropWhile (\<lambda>c. c \<noteq> 0x5D) s2
             in if display \<noteq> [] \<and> startsWith r2 (js '']]'') then Some (target, drop 2 r2) else None
           else if startsWith r1 (js '']]'') then Some (target, drop 2 r1)
           else None
      else None)"

lemma startsWith_length: "startsWith r t \<Longrightarrow> length t \<le> length r"
proof -
  assume "startsWith r t"
  then have "length (take (length t) r) = length t" by (simp add: startsWith_def)
  then show ?thesis by simp
qed

lemma match_link_shorter: "match_link s = Some (t, rest) \<Longrightarrow> length rest < length s"
proof -
  assume m: "match_link s = Some (t, rest)"
  let ?r1 = "dropWhile (\<lambda>c. c \<noteq> 0x5D \<and> c \<noteq> 0x7C) (drop 2 s)"
  let ?r2 = "dropWhile (\<lambda>c. c \<noteq> 0x5D) (drop 1 ?r1)"
  have r1: "length ?r1 \<le> length s"
    using length_dropWhile_le [of "\<lambda>c. c \<noteq> 0x5D \<and> c \<noteq> 0x7C" "drop 2 s"] by simp
  have r2: "length ?r2 \<le> length s"
    using length_dropWhile_le [of "\<lambda>c. c \<noteq> 0x5D" "drop 1 ?r1"] r1 by simp
  from m have "(rest = drop 2 ?r1 \<and> startsWith ?r1 (js '']]'')) \<or>
      (rest = drop 2 ?r2 \<and> startsWith ?r2 (js '']]''))"
    by (simp add: match_link_def Let_def split: if_splits)
  then obtain r where rest: "rest = drop 2 r" and st: "startsWith r (js '']]'')"
    and le: "length r \<le> length s"
    using r1 r2 by blast
  from startsWith_length [OF st] have "2 \<le> length r" by (simp add: js_def)
  with rest le show ?thesis by simp
qed

function scan_links :: "jstring \<Rightarrow> jstring list \<Rightarrow> jstring list" where
  "scan_links [] links = links"
| "scan_links (c # cs) links =
     (case match_link (c # cs) of
        Some (t, rest) \<Rightarrow> scan_links rest (set_add t links)
      | None \<Rightarrow> scan_links cs links)"
  by pat_completeness auto
termination
  by (relation "measure (\<lambda>(s, links). length s)") (auto dest: match_link_shorter)

definition extractLinks :: "jstring \<Rightarrow> jstring list" where
  "extractLinks content = scan_links content []"

text \<open>
  \<^verbatim>\<open>parseProperties\<close>. A line matches \<^verbatim>\<open>/^([a-zA-Z_-]+)::\s*(.*)$/\<close> when it opens with
  a key of letters, underscores and hyphens, two colons follow, and what is left after
  the white space holds no line terminator (\<^verbatim>\<open>.\<close> matches none and \<^verbatim>\<open>$\<close> is the end of
  the line). The properties are an object: assigning a key again keeps its place, and
  assigning a string to \<^verbatim>\<open>__proto__\<close> stores nothing.
\<close>

type_synonym properties = "(jstring \<times> jstring) list"

definition key_char :: "jchar \<Rightarrow> bool" where
  "key_char c \<longleftrightarrow> (0x61 \<le> c \<and> c \<le> 0x7A) \<or> (0x41 \<le> c \<and> c \<le> 0x5A) \<or> c = 0x5F \<or> c = 0x2D"

definition match_property :: "jstring \<Rightarrow> (jstring \<times> jstring) option" where
  "match_property line =
     (let key = takeWhile key_char line; r = dropWhile key_char line
      in if key \<noteq> [] \<and> startsWith r (js ''::'') then
           let v = dropWhile is_space (drop 2 r)
           in if list_all (\<lambda>c. \<not> is_line_terminator c) v then Some (key, v) else None
         else None)"

definition set_property :: "jstring \<Rightarrow> jstring \<Rightarrow> properties \<Rightarrow> properties" where
  "set_property key v props = (if key = js ''__proto__'' then props else AList.update key v props)"

text \<open>The loop of \<^verbatim>\<open>parseProperties\<close> over the lines from index \<open>i\<close> on.\<close>

fun parse_loop :: "jstring list \<Rightarrow> nat \<Rightarrow> nat \<Rightarrow> properties \<Rightarrow> nat \<times> properties" where
  "parse_loop [] i bodyStart props = (bodyStart, props)"
| "parse_loop (l # ls) i bodyStart props =
     (case match_property l of
        Some (key, v) \<Rightarrow> parse_loop ls (i + 1) (i + 1) (set_property key v props)
      | None \<Rightarrow>
          if trim l = [] then parse_loop ls (i + 1) bodyStart props
          else (bodyStart, props))"

definition parseProperties :: "jstring \<Rightarrow> properties \<times> jstring" where
  "parseProperties content =
     (let lines = split_on NL content;
          (bodyStart, props) = parse_loop lines 0 0 []
      in (props, join_with [NL] (drop bodyStart lines)))"

text \<open>
  \<^verbatim>\<open>validateProperties\<close> and \<^verbatim>\<open>buildContent\<close>. The argument is the list of the entries
  of the object, in the order \<^verbatim>\<open>Object.entries\<close> gives them; the values are strings.
\<close>

definition shape_char :: "jchar \<Rightarrow> bool" where
  "shape_char c \<longleftrightarrow> key_char c \<or> (0x30 \<le> c \<and> c \<le> 0x39)"

definition is_letter :: "jchar \<Rightarrow> bool" where
  "is_letter c \<longleftrightarrow> (0x61 \<le> c \<and> c \<le> 0x7A) \<or> (0x41 \<le> c \<and> c \<le> 0x5A)"

fun validateProperties :: "properties \<Rightarrow> error + unit" where
  "validateProperties [] = Inr ()"
| "validateProperties ((key, v) # rest) =
     (if 0x0A \<in> set key \<or> 0x0D \<in> set key \<or> includes_js key (js ''::'')
        then Inl (InvalidProperty KeyForbidden)
      else if 0x0A \<in> set v \<or> 0x0D \<in> set v then Inl (InvalidProperty ValueNewline)
      else if \<not> (case key of [] \<Rightarrow> False | c # cs \<Rightarrow> is_letter c \<and> list_all shape_char cs)
        then Inl (InvalidProperty KeyShape)
      else validateProperties rest)"

definition buildContent :: "jstring \<Rightarrow> properties option \<Rightarrow> error + jstring" where
  "buildContent content props =
     (case props of
        None \<Rightarrow> Inr content
      | Some ps \<Rightarrow>
          if length ps = 0 then Inr content
          else (case validateProperties ps of
                  Inl e \<Rightarrow> Inl e
                | Inr _ \<Rightarrow>
                    Inr (join_with [NL] (map (\<lambda>(key, v). key @ js '':: '' @ v) ps) @ [NL, NL] @ content)))"

section \<open>The graph service: the index\<close>

record PageMetadata =
  path :: jstring
  name :: jstring
  tags :: "jstring list"
  links :: "jstring list"
  backlinks :: "jstring list"
  isJournal :: bool

text \<open>
  A \<^verbatim>\<open>Page\<close> has the fields of the metadata and the parsed text; the two timestamps of
  the file, which no operation reads, are left out.
\<close>

record Page = PageMetadata +
  content :: jstring
  properties :: properties

text \<open>
  The loop of \<^verbatim>\<open>collectAllPages\<close> over the entries of one folder. A failing \<^verbatim>\<open>lstat\<close>
  is caught inside the loop and the entry skipped; a failing \<^verbatim>\<open>readFile\<close> is caught
  by the \<^verbatim>\<open>try\<close> around the loop, which ends the folder with the pages found so far.
\<close>

fun collect_folder ::
  "jstring \<Rightarrow> fs \<Rightarrow> jstring \<Rightarrow> jstring \<Rightarrow> bool \<Rightarrow> jstring list \<Rightarrow> PageMetadata list \<Rightarrow> PageMetadata list"
where
  "collect_folder cwd fs dir label journal [] pages = pages"
| "collect_folder cwd fs dir label journal (file # files) pages =
     (if extname file = js ''.md'' then
        (let filePath = path_join dir file in
         case lstat cwd fs filePath of
           Inl _ \<Rightarrow> collect_folder cwd fs dir label journal files pages
         | Inr st \<Rightarrow>
             if isSymbolicLink st then collect_folder cwd fs dir label journal files pages
             else (case readFile cwd fs filePath of
                     Inl _ \<Rightarrow> pages
                   | Inr text \<Rightarrow>
                       collect_folder cwd fs dir label journal files
                         (pages @ [\<lparr>path = label @ file, name = basename file (js ''.md''),
                                    tags = extractTags text, links = extractLinks text,
                                    backlinks = [], isJournal = journal\<rparr>])))
      else collect_folder cwd fs dir label journal files pages)"

definition collectAllPages :: "jstring \<Rightarrow> service \<Rightarrow> fs \<Rightarrow> PageMetadata list" where
  "collectAllPages cwd svc fs =
     (let pages1 = (case readdir cwd fs (pagesPath svc) of
                      Inl _ \<Rightarrow> []
                    | Inr pageFiles \<Rightarrow>
                        collect_folder cwd fs (pagesPath svc) (js ''pages/'') False pageFiles [])
      in case readdir cwd fs (journalsPath svc) of
           Inl _ \<Rightarrow> pages1
         | Inr journalFiles \<Rightarrow>
             collect_folder cwd fs (journalsPath svc) (js ''journals/'') True journalFiles pages1)"

text \<open>
  \<^verbatim>\<open>listPages\<close>. The backlink map is a JavaScript \<^verbatim>\<open>Map\<close> from a link target to the
  names of the pages that link to it, in the order of the walk.
\<close>

definition add_backlink :: "jstring \<Rightarrow> (jstring \<rightharpoonup> jstring list) \<Rightarrow> jstring \<Rightarrow> (jstring \<rightharpoonup> jstring list)" where
  "add_backlink pageName m link =
     (let existing = (case m link of None \<Rightarrow> [] | Some xs \<Rightarrow> xs)
      in m(link \<mapsto> existing @ [pageName]))"

definition build_backlinksMap :: "PageMetadata list \<Rightarrow> (jstring \<rightharpoonup> jstring list)" where
  "build_backlinksMap allPages =
     foldl (\<lambda>m page. foldl (add_backlink (name page)) m (links page)) Map.empty allPages"

definition listPages_of :: "PageMetadata list \<Rightarrow> jstring option \<Rightarrow> PageMetadata list" where
  "listPages_of allPages folder =
     (let backlinksMap = build_backlinksMap allPages;
          filteredPages =
            (case folder of
               None \<Rightarrow> allPages
             | Some f \<Rightarrow>
                 if f = [] then allPages
                 else if f = js ''journals'' then filter (\<lambda>p. isJournal p) allPages
                 else if f = js ''pages'' then filter (\<lambda>p. \<not> isJournal p) allPages
                 else allPages)
      in map (\<lambda>page. page\<lparr>backlinks := (case backlinksMap (name page) of None \<Rightarrow> [] | Some xs \<Rightarrow> xs)\<rparr>)
           filteredPages)"

definition listPages :: "jstring \<Rightarrow> service \<Rightarrow> fs \<Rightarrow> jstring option \<Rightarrow> PageMetadata list" where
  "listPages cwd svc fs folder = listPages_of (collectAllPages cwd svc fs) folder"

section \<open>The graph service: the document store\<close>

text \<open>
  Each operation takes the store and, when it writes, returns the store it leaves behind,
  also when it fails after a first write. \<open>cwd\<close> and the service come first.
\<close>

definition readPage :: "jstring \<Rightarrow> service \<Rightarrow> fs \<Rightarrow> jstring \<Rightarrow> error + Page" where
  "readPage cwd svc fs pathOrName =
     (case resolvePath cwd svc fs pathOrName of
        Inl e \<Rightarrow> Inl e
      | Inr filePath \<Rightarrow>
     (case checkSymlink cwd fs filePath of
        Inl e \<Rightarrow> Inl e
      | Inr _ \<Rightarrow>
     (case readFile cwd fs filePath of
        Inl e \<Rightarrow> Inl e
      | Inr text \<Rightarrow>
     (case stat cwd fs filePath of
        Inl e \<Rightarrow> Inl e
      | Inr _ \<Rightarrow>
          let nm = basename filePath (js ''.md'');
              (props, body) = parseProperties text;
              allPages = collectAllPages cwd svc fs
          in Inr \<lparr>path = replace_first filePath (graphPath svc @ js ''/'') [],
                  name = nm,
                  tags = extractTags text,
                  links = extractLinks text,
                  backlinks = map name (filter (\<lambda>p. nm \<in> set (links p)) allPages),
                  isJournal = includes_js filePath (js ''/journals/''),
                  content = body,
                  properties = props\<rparr>))))"

definition createPage ::
  "jstring \<Rightarrow> service \<Rightarrow> fs \<Rightarrow> jstring \<Rightarrow> jstring \<Rightarrow> properties option \<Rightarrow> (error + Page) \<times> fs" where
  "createPage cwd svc fs nm text props =
     (case validatePageName nm of
        Inl e \<Rightarrow> (Inl e, fs)
      | Inr _ \<Rightarrow>
     (let filePath = path_join (pagesPath svc) (nm @ js ''.md'') in
      case validatePath cwd svc filePath of
        Inl e \<Rightarrow> (Inl e, fs)
      | Inr _ \<Rightarrow>
     (case validateContentSize text of
        Inl e \<Rightarrow> (Inl e, fs)
      | Inr _ \<Rightarrow>
     (case mkdir_recursive cwd fs (pagesPath svc) of
        (Inl e, fs1) \<Rightarrow> (Inl e, fs1)
      | (Inr _, fs1) \<Rightarrow>
     (case checkSymlink cwd fs1 filePath of
        Inl e \<Rightarrow> (Inl e, fs1)
      | Inr _ \<Rightarrow>
     (case buildContent text props of
        Inl e \<Rightarrow> (Inl e, fs1)
      | Inr fullContent \<Rightarrow>
     (case writeFile_wx cwd fs1 filePath fullContent of
        Inl e \<Rightarrow>
          ((case e of Unexpected EEXIST _ _ \<Rightarrow> Inl (AlreadyExists nm) | _ \<Rightarrow> Inl e), fs1)
      | Inr fs2 \<Rightarrow> (readPage cwd svc fs2 nm, fs2))))))))"

definition updatePage ::
  "jstring \<Rightarrow> service \<Rightarrow> fs \<Rightarrow> jstring \<Rightarrow> jstring \<Rightarrow> properties option \<Rightarrow> (error + Page) \<times> fs" where
  "updatePage cwd svc fs pathOrName text props =
     (case validateContentSize text of
        Inl e \<Rightarrow> (Inl e, fs)
      | Inr _ \<Rightarrow>
     (case resolvePath cwd svc fs pathOrName of
        Inl e \<Rightarrow> (Inl e, fs)
      | Inr filePath \<Rightarrow>
     (case checkSymlink cwd fs filePath of
        Inl e \<Rightarrow> (Inl e, fs)
      | Inr _ \<Rightarrow>
     (case buildContent text props of
        Inl e \<Rightarrow> (Inl e, fs)
      | Inr fullContent \<Rightarrow>
     (case writeFile cwd fs filePath fullContent of
        Inl e \<Rightarrow> (Inl e, fs)
      | Inr fs1 \<Rightarrow> (readPage cwd svc fs1 pathOrName, fs1))))))"


definition appendToPage ::
  "jstring \<Rightarrow> service \<Rightarrow> fs \<Rightarrow> jstring \<Rightarrow> jstring \<Rightarrow> (error + Page) \<times> fs" where
  "appendToPage cwd svc fs pathOrName text =
     (case validateContentSize text of
        Inl e \<Rightarrow> (Inl e, fs)
      | Inr _ \<Rightarrow>
     (case resolvePath cwd svc fs pathOrName of
        Inl e \<Rightarrow> (Inl e, fs)
      | Inr filePath \<Rightarrow>
     (case checkSymlink cwd fs filePath of
        Inl e \<Rightarrow> (Inl e, fs)
      | Inr _ \<Rightarrow>
     (case readFile cwd fs filePath of
        Inl e \<Rightarrow> (Inl e, fs)
      | Inr existing \<Rightarrow>
     (let newContent = trimEnd existing @ [NL] @ text in
      case validateContentSize newContent of
        Inl e \<Rightarrow> (Inl e, fs)
      | Inr _ \<Rightarrow>
     (case writeFile cwd fs filePath newContent of
        Inl e \<Rightarrow> (Inl e, fs)
      | Inr fs1 \<Rightarrow> (readPage cwd svc fs1 pathOrName, fs1)))))))"

section \<open>The graph service: journals\<close>









section \<open>The graph service: search\<close>

text \<open>
  A match of \<^verbatim>\<open>searchPages\<close>; its fields \<^verbatim>\<open>content\<close> and \<^verbatim>\<open>context\<close> are
  \<open>match_content\<close> and \<open>match_context\<close> here (one name is the page's, the other a keyword). \<^verbatim>\<open>toLowerCase\<close> is the function \<open>lc\<close>, a parameter: the
  properties of the search hold for every such function.
\<close>

record SearchMatch =
  line :: nat
  match_content :: jstring
  match_context :: jstring

record SearchResult =
  page :: PageMetadata
  matches :: "SearchMatch list"

definition slice :: "'a list \<Rightarrow> nat \<Rightarrow> nat \<Rightarrow> 'a list" where
  "slice xs a b = take (b - a) (drop a xs)"

text \<open>
  The loop of \<^verbatim>\<open>searchPages\<close> over the lines of one file: \<open>rest\<close> holds the lines from
  index \<open>i\<close> on, \<open>lines\<close> all of them for the context.
\<close>

fun match_loop ::
  "(jstring \<Rightarrow> jstring) \<Rightarrow> jstring list \<Rightarrow> jstring \<Rightarrow> jstring list \<Rightarrow> nat \<Rightarrow> SearchMatch list \<Rightarrow>
   SearchMatch list" where
  "match_loop lc lines queryLower [] i ms = ms"
| "match_loop lc lines queryLower (l # rest) i ms =
     match_loop lc lines queryLower rest (i + 1)
       (if includes_js (lc l) queryLower
        then ms @ [\<lparr>line = i + 1, match_content = l,
                     match_context = join_with [NL] (slice lines (nat (max 0 (int i - 1))) (i + 2))\<rparr>]
        else ms)"

definition line_matches :: "(jstring \<Rightarrow> jstring) \<Rightarrow> jstring list \<Rightarrow> jstring \<Rightarrow> SearchMatch list" where
  "line_matches lc lines queryLower = match_loop lc lines queryLower lines 0 []"

fun search_loop ::
  "(jstring \<Rightarrow> jstring) \<Rightarrow> jstring \<Rightarrow> service \<Rightarrow> fs \<Rightarrow> jstring \<Rightarrow> jstring list option \<Rightarrow>
   PageMetadata list \<Rightarrow> SearchResult list \<Rightarrow> error + SearchResult list" where
  "search_loop lc cwd svc fs queryLower tagFilter [] results = Inr results"
| "search_loop lc cwd svc fs queryLower tagFilter (pg # pages) results =
     (if (case tagFilter of
            None \<Rightarrow> False
          | Some ts \<Rightarrow> length ts > 0 \<and> \<not> list_ex (\<lambda>tag. tag \<in> set (tags pg)) ts)
      then search_loop lc cwd svc fs queryLower tagFilter pages results
      else
        let filePath = path_join (graphPath svc) (path pg) in
        case checkRegularFile cwd fs filePath of
          Inl _ \<Rightarrow> search_loop lc cwd svc fs queryLower tagFilter pages results
        | Inr _ \<Rightarrow>
            (case readFile cwd fs filePath of
               Inl e \<Rightarrow> Inl e
             | Inr text \<Rightarrow>
                 let ms = line_matches lc (split_on NL text) queryLower in
                 if includes_js (lc (name pg)) queryLower \<or> length ms > 0
                 then search_loop lc cwd svc fs queryLower tagFilter pages
                        (results @ [\<lparr>page = pg, matches = ms\<rparr>])
                 else search_loop lc cwd svc fs queryLower tagFilter pages results))"

definition searchPages ::
  "(jstring \<Rightarrow> jstring) \<Rightarrow> jstring \<Rightarrow> service \<Rightarrow> fs \<Rightarrow> jstring \<Rightarrow> jstring list option \<Rightarrow>
   jstring option \<Rightarrow> error + SearchResult list" where
  "searchPages lc cwd svc fs query tagFilter folder =
     (if length query > 1000 then Inl QueryTooLong
      else search_loop lc cwd svc fs (lc query) tagFilter (listPages cwd svc fs folder) [])"

text \<open>\<^verbatim>\<open>toLowerCase\<close> on ASCII text, for the examples.\<close>

definition ascii_lower :: "jstring \<Rightarrow> jstring" where
  "ascii_lower s = map (\<lambda>c. if 0x41 \<le> c \<and> c \<le> 0x5A then c + 0x20 else c) s"

section \<open>The graph service: the graph view\<close>

text \<open>
  Nodes and edges of \<^verbatim>\<open>getGraph\<close>. The fields \<^verbatim>\<open>id\<close>, \<^verbatim>\<open>name\<close> and \<^verbatim>\<open>type\<close> of a node
  are \<open>node_id\<close>, \<open>node_name\<close> and \<open>node_type\<close> here, the \<^verbatim>\<open>type\<close> of an edge is
  \<open>edge_type\<close>.
\<close>

datatype node_kind = PageNode | TagNode | JournalNode
datatype edge_kind = LinkEdge | TagEdge | BacklinkEdge

record GraphNode =
  node_id :: jstring
  node_name :: jstring
  node_type :: node_kind

record GraphEdge =
  source :: jstring
  target :: jstring
  edge_type :: edge_kind

record Graph =
  nodes :: "GraphNode list"
  edges :: "GraphEdge list"

text \<open>
  The local state of \<^verbatim>\<open>getGraph\<close>: the two result lists, the set of node ids, and for
  the walk from a centre its queue and the set of visited names.
\<close>

record walk = Graph +
  nodeSet :: "jstring list"
  queue :: "(jstring \<times> nat) list"
  visited :: "jstring list"

definition start :: walk where
  "start = \<lparr>nodes = [], edges = [], nodeSet = [], queue = [], visited = []\<rparr>"

definition addNode :: "jstring \<Rightarrow> jstring \<Rightarrow> node_kind \<Rightarrow> walk \<Rightarrow> walk" where
  "addNode i nm kind st =
     (if i \<in> set (nodeSet st) then st
      else st\<lparr>nodeSet := nodeSet st @ [i],
              nodes := nodes st @ [\<lparr>node_id = i, node_name = nm, node_type = kind\<rparr>]\<rparr>)"

definition push_edge :: "jstring \<Rightarrow> jstring \<Rightarrow> edge_kind \<Rightarrow> walk \<Rightarrow> walk" where
  "push_edge s t kind st = st\<lparr>edges := edges st @ [\<lparr>source = s, target = t, edge_type = kind\<rparr>]\<rparr>"

definition tag_id :: "jstring \<Rightarrow> jstring" where
  "tag_id tag = js ''tag:'' @ tag"

text \<open>The three inner loops of the walk, for the page \<open>nm\<close> taken from the queue at \<open>depth\<close>.\<close>

definition enqueue :: "bool \<Rightarrow> jstring \<Rightarrow> nat \<Rightarrow> walk \<Rightarrow> walk" where
  "enqueue deeper nm depth st = (if deeper then st\<lparr>queue := queue st @ [(nm, depth + 1)]\<rparr> else st)"

definition add_links :: "jstring \<Rightarrow> nat \<Rightarrow> nat \<Rightarrow> jstring list \<Rightarrow> walk \<Rightarrow> walk" where
  "add_links nm depth maxDepth ls st =
     foldl (\<lambda>st link.
              enqueue (depth < maxDepth) link depth
                (push_edge nm link LinkEdge (addNode link link PageNode st)))
       st ls"

definition add_backlinks :: "jstring \<Rightarrow> nat \<Rightarrow> nat \<Rightarrow> jstring list \<Rightarrow> walk \<Rightarrow> walk" where
  "add_backlinks nm depth maxDepth bs st =
     foldl (\<lambda>st backlink.
              enqueue (depth < maxDepth) backlink depth
                (push_edge backlink nm BacklinkEdge (addNode backlink backlink PageNode st)))
       st bs"

definition add_tags :: "jstring \<Rightarrow> jstring list \<Rightarrow> walk \<Rightarrow> walk" where
  "add_tags nm ts st =
     foldl (\<lambda>st tag. push_edge nm (tag_id tag) TagEdge (addNode (tag_id tag) tag TagNode st)) st ts"

definition expand :: "PageMetadata \<Rightarrow> jstring \<Rightarrow> nat \<Rightarrow> nat \<Rightarrow> walk \<Rightarrow> walk" where
  "expand pg nm depth maxDepth st =
     add_tags nm (tags pg)
       (add_backlinks nm depth maxDepth (backlinks pg)
          (add_links nm depth maxDepth (links pg)
             (addNode nm nm (if isJournal pg then JournalNode else PageNode) st)))"

lemma visited_foldl:
  "(\<And>st x. visited (f st x) = visited st) \<Longrightarrow> visited (foldl f st xs) = visited st"
  by (induction xs arbitrary: st) auto

lemma visited_expand: "visited (expand pg nm depth maxDepth st) = visited st"
  by (simp add: expand_def add_tags_def add_backlinks_def add_links_def visited_foldl
      enqueue_def push_edge_def addNode_def)

text \<open>
  The \<^verbatim>\<open>while\<close> loop of the walk. It ends: a step either shortens the queue and visits
  no page, or visits a page not visited before.
\<close>

function bfs :: "PageMetadata list \<Rightarrow> nat \<Rightarrow> walk \<Rightarrow> walk" where
  "bfs pages maxDepth st =
     (case queue st of
        [] \<Rightarrow> st
      | (nm, depth) # rest \<Rightarrow>
          if nm \<in> set (visited st) \<or> depth > maxDepth then bfs pages maxDepth (st\<lparr>queue := rest\<rparr>)
          else (case find (\<lambda>p. name p = nm) pages of
                  None \<Rightarrow> bfs pages maxDepth (st\<lparr>queue := rest, visited := visited st @ [nm]\<rparr>)
                | Some pg \<Rightarrow>
                    bfs pages maxDepth
                      (expand pg nm depth maxDepth (st\<lparr>queue := rest, visited := visited st @ [nm]\<rparr>))))"
  by pat_completeness auto
termination
proof (relation "inv_image (less_than <*lex*> less_than)
    (\<lambda>(pages, maxDepth, st). (card (name ` set pages - set (visited st)), length (queue st)))")
  show "wf (inv_image (less_than <*lex*> less_than)
    (\<lambda>(pages, maxDepth, st). (card (name ` set pages - set (visited st)), length (queue st))))"
    by (intro wf_inv_image wf_lex_prod wf_less_than)
next
  fix pages :: "PageMetadata list" and maxDepth :: nat and st :: walk and x rest nm depth
  assume "queue st = x # rest" "(nm, depth) = x" "nm \<in> set (visited st) \<or> maxDepth < depth"
  then show "((pages, maxDepth, st\<lparr>queue := rest\<rparr>), pages, maxDepth, st)
      \<in> inv_image (less_than <*lex*> less_than)
          (\<lambda>(pages, maxDepth, st). (card (name ` set pages - set (visited st)), length (queue st)))"
    by simp
next
  fix pages :: "PageMetadata list" and maxDepth :: nat and st :: walk and x rest nm depth
  assume q: "queue st = x # rest" "(nm, depth) = x"
  have "card (name ` set pages - set (visited st @ [nm])) \<le> card (name ` set pages - set (visited st))"
    by (rule card_mono) auto
  with q show "((pages, maxDepth, st\<lparr>queue := rest, visited := visited st @ [nm]\<rparr>), pages, maxDepth, st)
      \<in> inv_image (less_than <*lex*> less_than)
          (\<lambda>(pages, maxDepth, st). (card (name ` set pages - set (visited st)), length (queue st)))"
    by (auto simp: le_less)
next
  fix pages :: "PageMetadata list" and maxDepth :: nat and st :: walk and x rest nm depth pg
  assume q: "queue st = x # rest" "(nm, depth) = x"
    and nv: "\<not> (nm \<in> set (visited st) \<or> maxDepth < depth)"
    and f: "find (\<lambda>p. name p = nm) pages = Some pg"
  from f have "nm \<in> name ` set pages"
    by (auto simp: find_Some_iff)
  with nv have "name ` set pages - set (visited st @ [nm]) \<subset> name ` set pages - set (visited st)"
    by auto
  then have "card (name ` set pages - set (visited st @ [nm])) < card (name ` set pages - set (visited st))"
    by (intro psubset_card_mono) auto
  then show "((pages, maxDepth, expand pg nm depth maxDepth (st\<lparr>queue := rest, visited := visited st @ [nm]\<rparr>)),
        pages, maxDepth, st)
      \<in> inv_image (less_than <*lex*> less_than)
          (\<lambda>(pages, maxDepth, st). (card (name ` set pages - set (visited st)), length (queue st)))"
    by (simp add: visited_expand)
qed

declare bfs.simps [simp del]

text \<open>
  \<^verbatim>\<open>getGraph\<close> on the pages that \<^verbatim>\<open>listPages\<close> returned. An empty centre counts as none
  (the string is falsy); the depth defaults to 1 and is clamped to 0..\<open>MAX_DEPTH\<close>.
\<close>

definition full_graph :: "PageMetadata list \<Rightarrow> walk \<Rightarrow> walk" where
  "full_graph pages st =
     foldl (\<lambda>st pg.
              add_tags (name pg) (tags pg)
                (foldl (\<lambda>st link. push_edge (name pg) link LinkEdge (addNode link link PageNode st))
                   (addNode (name pg) (name pg) (if isJournal pg then JournalNode else PageNode) st)
                   (links pg)))
       st pages"

definition getGraph_of :: "PageMetadata list \<Rightarrow> jstring option \<Rightarrow> int option \<Rightarrow> Graph" where
  "getGraph_of pages center depth =
     (let st =
        (case center of
           Some c \<Rightarrow>
             if c \<noteq> [] then
               let requestedDepth = (case depth of None \<Rightarrow> 1 | Some d \<Rightarrow> d);
                   maxDepth = max 0 (min requestedDepth MAX_DEPTH)
               in bfs pages (nat maxDepth) (start\<lparr>queue := [(c, 0)]\<rparr>)
             else full_graph pages start
         | None \<Rightarrow> full_graph pages start)
      in \<lparr>nodes = nodes st, edges = edges st\<rparr>)"

definition getGraph :: "jstring \<Rightarrow> service \<Rightarrow> fs \<Rightarrow> jstring option \<Rightarrow> int option \<Rightarrow> Graph" where
  "getGraph cwd svc fs center depth = getGraph_of (listPages cwd svc fs None) center depth"

section \<open>Notions the properties speak of\<close>

text \<open>
  A well-formed graph view: node ids pairwise distinct, every edge between two nodes of
  the view. \<open>walk_inv\<close> is the same for the state of \<^verbatim>\<open>getGraph\<close> at work, where the set
  of ids mirrors the node list.
\<close>

definition graph_wf :: "Graph \<Rightarrow> bool" where
  "graph_wf g \<longleftrightarrow>
     distinct (map node_id (nodes g)) \<and>
     (\<forall>e\<in>set (edges g). source e \<in> node_id ` set (nodes g) \<and> target e \<in> node_id ` set (nodes g))"

definition walk_inv :: "walk \<Rightarrow> bool" where
  "walk_inv st \<longleftrightarrow>
     distinct (map node_id (nodes st)) \<and>
     node_id ` set (nodes st) = set (nodeSet st) \<and>
     (\<forall>e\<in>set (edges st). source e \<in> set (nodeSet st) \<and> target e \<in> set (nodeSet st))"

text \<open>The invariant together with the presence of the page being expanded.\<close>

definition walk_inv_at :: "jstring \<Rightarrow> walk \<Rightarrow> bool" where
  "walk_inv_at nm st \<longleftrightarrow> walk_inv st \<and> nm \<in> set (nodeSet st)"

text \<open>Adding nodes one by one, a node whose id is already present being dropped.\<close>

fun add_all :: "GraphNode list \<Rightarrow> GraphNode list \<Rightarrow> GraphNode list" where
  "add_all acc [] = acc"
| "add_all acc (n # ns) =
     add_all (if node_id n \<in> node_id ` set acc then acc else acc @ [n]) ns"

definition dedup_by_id :: "GraphNode list \<Rightarrow> GraphNode list" where
  "dedup_by_id ns = add_all [] ns"

definition page_node :: "jstring \<Rightarrow> GraphNode" where
  "page_node l = \<lparr>node_id = l, node_name = l, node_type = PageNode\<rparr>"

definition tag_node :: "jstring \<Rightarrow> GraphNode" where
  "tag_node t = \<lparr>node_id = tag_id t, node_name = t, node_type = TagNode\<rparr>"

definition center_node :: "PageMetadata \<Rightarrow> jstring \<Rightarrow> GraphNode" where
  "center_node pg c = \<lparr>node_id = c, node_name = c, node_type = (if isJournal pg then JournalNode else PageNode)\<rparr>"

definition ids_agree :: "walk \<Rightarrow> bool" where
  "ids_agree st \<longleftrightarrow> set (nodeSet st) = node_id ` set (nodes st)"

text \<open>The list a backlink map holds for a key, empty when the key is absent.\<close>

definition lookup_list :: "('k \<rightharpoonup> 'v list) \<Rightarrow> 'k \<Rightarrow> 'v list" where
  "lookup_list m k = (case m k of None \<Rightarrow> [] | Some xs \<Rightarrow> xs)"

text \<open>Every indexed page was read from a file of its folder.\<close>

definition from_file :: "jstring \<Rightarrow> fs \<Rightarrow> jstring \<Rightarrow> jstring \<Rightarrow> bool \<Rightarrow> PageMetadata \<Rightarrow> bool" where
  "from_file cwd fs dir label journal p \<longleftrightarrow>
     (\<exists>file text.
        readFile cwd fs (path_join dir file) = Inr text \<and>
        p = \<lparr>path = label @ file, name = basename file (js ''.md''), tags = extractTags text,
             links = extractLinks text, backlinks = [], isJournal = journal\<rparr>)"

text \<open>
  The lines \<^verbatim>\<open>parseProperties\<close> scans: the leading lines that match the property expression
  or are blank. \<open>body_start\<close> is the number of lines up to the last matching line scanned,
  \<open>prop_step\<close> the assignment a line makes.
\<close>

definition prop_step :: "properties \<Rightarrow> jstring \<Rightarrow> properties" where
  "prop_step props l = (case match_property l of Some (key, v) \<Rightarrow> set_property key v props | None \<Rightarrow> props)"

definition scanned :: "jstring list \<Rightarrow> jstring list" where
  "scanned ls = takeWhile (\<lambda>l. match_property l \<noteq> None \<or> trim l = []) ls"

definition body_start :: "jstring list \<Rightarrow> nat" where
  "body_start ls = length (dropWhile (\<lambda>l. match_property l = None) (rev (scanned ls)))"

text \<open>
  Notions for the search: a page passes the tag filter; the result \<open>hit\<close> that one page
  contributes, if any; the match \<open>match_at\<close> of the line with index \<open>i\<close>, with its context
  \<open>context_of\<close> of up to three lines.
\<close>

definition passes_tags :: "jstring list option \<Rightarrow> PageMetadata \<Rightarrow> bool" where
  "passes_tags tagFilter pg \<longleftrightarrow>
     (case tagFilter of None \<Rightarrow> True | Some ts \<Rightarrow> ts = [] \<or> (\<exists>tag\<in>set ts. tag \<in> set (tags pg)))"

definition hit ::
  "(jstring \<Rightarrow> jstring) \<Rightarrow> jstring \<Rightarrow> service \<Rightarrow> fs \<Rightarrow> jstring \<Rightarrow> jstring list option \<Rightarrow> PageMetadata \<Rightarrow>
   SearchResult option" where
  "hit lc cwd svc fs queryLower tagFilter pg =
     (if \<not> passes_tags tagFilter pg then None
      else case checkRegularFile cwd fs (path_join (graphPath svc) (path pg)) of
        Inl _ \<Rightarrow> None
      | Inr _ \<Rightarrow>
          (case readFile cwd fs (path_join (graphPath svc) (path pg)) of
             Inl _ \<Rightarrow> None
           | Inr body \<Rightarrow>
               if includes_js (lc (name pg)) queryLower \<or>
                  line_matches lc (split_on NL body) queryLower \<noteq> []
               then Some \<lparr>page = pg, matches = line_matches lc (split_on NL body) queryLower\<rparr>
               else None))"

definition context_of :: "jstring list \<Rightarrow> nat \<Rightarrow> jstring" where
  "context_of lines i =
     join_with [NL]
       ((if i = 0 then [] else [lines ! (i - 1)]) @ [lines ! i] @
        (if i + 1 < length lines then [lines ! (i + 1)] else []))"

definition match_at :: "jstring list \<Rightarrow> nat \<Rightarrow> SearchMatch" where
  "match_at lines i = \<lparr>line = i + 1, match_content = lines ! i, match_context = context_of lines i\<rparr>"

text \<open>A text of exactly 10 MiB, for the examples of the size cap.\<close>

definition big_text :: jstring where
  "big_text = replicate 10485760 0x61"

text \<open>
  The errors of the three validations that \<^verbatim>\<open>createPage\<close> runs before it touches the store.
\<close>

fun is_validation_error :: "error \<Rightarrow> bool" where
  "is_validation_error (InvalidName f) = True"
| "is_validation_error PathEscape = True"
| "is_validation_error (ContentTooLarge n) = True"
| "is_validation_error e = False"

text \<open>A working directory as a process has it: an absolute path, without NUL.\<close>

definition cwd_ok :: "jstring \<Rightarrow> bool" where
  "cwd_ok cwd \<longleftrightarrow> isAbsolute cwd \<and> 0 \<notin> set cwd"

text \<open>Every path of the list leads to a directory of the store.\<close>

definition all_dirs :: "fs \<Rightarrow> jstring list \<Rightarrow> bool" where
  "all_dirs fs ks \<longleftrightarrow> (\<forall>k\<in>set ks. \<exists>k'. follow 40 fs k = Some (k', Some Dir))"


section \<open>Properties of the file store\<close>

lemma named_plain:
  "map_of fs k = Some e \<Longrightarrow> (\<forall>x. e \<noteq> Hardlink x) \<Longrightarrow> named fs k = Some (k, e)"
  by (cases e) (simp_all add: named_def)

lemma named_no_name: "named fs k = Some (k', e) \<Longrightarrow> e \<noteq> Hardlink x"
  by (auto simp: named_def split: option.splits entry.splits)

lemma named_append: "named fs k = Some r \<Longrightarrow> named (fs @ extra) k = Some r"
  by (auto simp: named_def map_add_Some_iff split: option.splits entry.splits)

lemma named_further:
  "named fs k = Some (k', e) \<Longrightarrow> k' \<noteq> k \<Longrightarrow> map_of fs k = Some (Hardlink k')"
  by (auto simp: named_def split: option.splits entry.splits)

lemma follow_40:
  "follow 40 fs k =
     (case named fs k of
        None \<Rightarrow> Some (k, None)
      | Some (_, Symlink t) \<Rightarrow> follow 39 fs (path_resolve (parent k) t)
      | Some (k0, e) \<Rightarrow> Some (k0, Some e))"
proof -
  have "(40::nat) = Suc 39" by simp
  then have "follow 40 fs k = follow (Suc 39) fs k"
    by (rule arg_cong [where f = "\<lambda>n. follow n fs k"])
  then show ?thesis by (simp only: follow.simps)
qed

lemma follow_named_file:
  "named fs k = Some (k', File c n) \<Longrightarrow> follow 40 fs k = Some (k', Some (File c n))"
  by (simp add: follow_40)

lemma follow_file: "map_of fs k = Some (File c n) \<Longrightarrow> follow 40 fs k = Some (k, Some (File c n))"
  by (simp add: follow_40 named_plain)

lemma follow_dir: "map_of fs k = Some Dir \<Longrightarrow> follow 40 fs k = Some (k, Some Dir)"
  by (simp add: follow_40 named_plain)

lemma lstat_plain:
  "0 \<notin> set p \<Longrightarrow> map_of fs (path_resolve cwd p) = Some e \<Longrightarrow> (\<forall>x. e \<noteq> Hardlink x) \<Longrightarrow>
   lstat cwd fs p = Inr (stats_of e)"
  by (simp add: lstat_def named_plain)

lemma readFile_of_named:
  "0 \<notin> set p \<Longrightarrow> named fs (path_resolve cwd p) = Some (k, File body n) \<Longrightarrow> readFile cwd fs p = Inr body"
  by (simp add: readFile_def follow_named_file)

lemma readFile_of_file:
  "0 \<notin> set p \<Longrightarrow> map_of fs (path_resolve cwd p) = Some (File body n) \<Longrightarrow> readFile cwd fs p = Inr body"
  by (simp add: readFile_def follow_file)

section \<open>Properties of the path guard\<close>

lemma split_on_not_Nil [simp]: "split_on c xs \<noteq> []"
  by (induction xs) (auto split: list.splits)

lemma split_on_append: "split_on c (a @ c # b) = split_on c a @ split_on c b"
  by (induction a) (auto split: list.splits)

lemma split_on_no_sep: "s \<in> set (split_on c xs) \<Longrightarrow> c \<notin> set s"
  by (induction xs arbitrary: s) (auto split: list.splits if_splits)

lemma join_split_on: "join_with [c] (split_on c xs) = xs"
proof (induction xs)
  case Nil
  then show ?case by simp
next
  case (Cons x xs)
  then show ?case
    by (cases "split_on c xs"; cases "tl (split_on c xs)") auto
qed

lemma segments_append: "segments (a @ SLASH # b) = segments a @ segments b"
  by (simp add: segments_def split_on_append)

lemma segments_Nil_last: "segments rest = [] \<Longrightarrow> last (SLASH # rest) = SLASH"
proof (induction rest)
  case Nil
  then show ?case by simp
next
  case (Cons x xs)
  show ?case
  proof (cases "x = SLASH")
    case True
    with Cons show ?thesis by (simp add: segments_def)
  next
    case False
    with Cons.prems show ?thesis
      by (cases "split_on SLASH xs") (auto simp: segments_def)
  qed
qed

lemma DOT_neq_SLASH: "DOT \<noteq> SLASH"
  by (simp add: DOT_def SLASH_def)

text \<open>Normalisation leaves only segments that are not empty and hold no slash.\<close>

lemma normSegs_clean:
  "\<forall>s\<in>set acc. s \<noteq> [] \<and> SLASH \<notin> set s \<Longrightarrow> \<forall>s\<in>set ss. SLASH \<notin> set s \<Longrightarrow>
   \<forall>s\<in>set (normSegs a acc ss). s \<noteq> [] \<and> SLASH \<notin> set s"
proof (induction ss arbitrary: acc)
  case Nil
  then show ?case by simp
next
  case (Cons s ss)
  from Cons.prems have s: "SLASH \<notin> set s" and ss: "\<forall>s\<in>set ss. SLASH \<notin> set s"
    by auto
  have step: "\<forall>s\<in>set (normSegs a acc' ss). s \<noteq> [] \<and> SLASH \<notin> set s"
    if "\<forall>s\<in>set acc'. s \<noteq> [] \<and> SLASH \<notin> set s" for acc'
    using Cons.IH [OF that ss] .
  have dd: "SLASH \<notin> set [DOT, DOT]"
    using DOT_neq_SLASH by auto
  show ?case
  proof (cases "s = [] \<or> s = [DOT]")
    case True
    then have eq: "normSegs a acc (s # ss) = normSegs a acc ss" by auto
    show ?thesis unfolding eq by (rule step [OF Cons.prems(1)])
  next
    case plain: False
    show ?thesis
    proof (cases "s = [DOT, DOT]")
      case False
      with plain have eq: "normSegs a acc (s # ss) = normSegs a (s # acc) ss" by simp
      have cl: "\<forall>t\<in>set (s # acc). t \<noteq> [] \<and> SLASH \<notin> set t"
        using plain s Cons.prems(1) by auto
      show ?thesis unfolding eq by (rule step [OF cl])
    next
      case up: True
      show ?thesis
      proof (cases acc)
        case Nil
        with up have eq: "normSegs a acc (s # ss) = normSegs a (if a then [[DOT, DOT]] else []) ss"
          by simp
        have cl: "\<forall>t\<in>set (if a then [[DOT, DOT]] else []). t \<noteq> [] \<and> SLASH \<notin> set t"
          using dd by auto
        show ?thesis unfolding eq by (rule step [OF cl])
      next
        case (Cons t ts)
        with up have eq: "normSegs a acc (s # ss) =
            normSegs a (if t = [DOT, DOT] then (if a then s # acc else acc) else ts) ss"
          by simp
        have cl: "\<forall>u\<in>set (if t = [DOT, DOT] then (if a then s # acc else acc) else ts).
            u \<noteq> [] \<and> SLASH \<notin> set u"
          using Cons.prems(1) Cons up dd by auto
        show ?thesis unfolding eq by (rule step [OF cl])
      qed
    qed
  qed
qed

lemma join_with_last:
  "segs \<noteq> [] \<Longrightarrow> \<forall>s\<in>set segs. s \<noteq> [] \<and> c \<notin> set s \<Longrightarrow>
   join_with [c] segs \<noteq> [] \<and> last (join_with [c] segs) \<noteq> c"
proof (induction "[c]" segs rule: join_with.induct)
  case 1
  then show ?case by simp
next
  case (2 x)
  then show ?case by (auto dest: last_in_set)
next
  case (3 x y ys)
  then show ?case by auto
qed

lemma normalizeString_last:
  "normalizeString p a \<noteq> [] \<Longrightarrow> last (normalizeString p a) \<noteq> SLASH"
proof -
  assume ne: "normalizeString p a \<noteq> []"
  let ?segs = "normSegs a [] (split_on SLASH p)"
  have clean: "\<forall>s\<in>set ?segs. s \<noteq> [] \<and> SLASH \<notin> set s"
    by (rule normSegs_clean) (auto dest: split_on_no_sep)
  from ne have "?segs \<noteq> []" by (auto simp: normalizeString_def)
  with clean have "last (join_with [SLASH] ?segs) \<noteq> SLASH"
    using join_with_last [of ?segs SLASH] by simp
  then show ?thesis by (simp add: normalizeString_def)
qed

text \<open>A resolved path is never empty and ends in a slash only when it is the root itself.\<close>

lemma path_resolve_shape:
  "path_resolve cwd p \<noteq> [] \<and> (path_resolve cwd p = [SLASH] \<or> last (path_resolve cwd p) \<noteq> SLASH)"
proof -
  let ?r1 = "if isAbsolute p \<or> cwd = [] then (if p = [] then [] else p @ [SLASH])
             else cwd @ [SLASH] @ (if p = [] then [] else p @ [SLASH])"
  let ?ab = "isAbsolute p \<or> isAbsolute cwd"
  let ?q = "normalizeString ?r1 (\<not> ?ab)"
  have eq: "path_resolve cwd p = (if ?ab then SLASH # ?q else if ?q = [] then [DOT] else ?q)"
    by (simp add: path_resolve_def Let_def)
  have "?q = [] \<or> last ?q \<noteq> SLASH"
    using normalizeString_last [of ?r1 "\<not> ?ab"] by blast
  then show ?thesis
    unfolding eq by (auto simp: DOT_def SLASH_def)
qed

lemma startsWith_append: "startsWith q t \<longleftrightarrow> (\<exists>rest. q = t @ rest)"
  unfolding startsWith_def
  by (metis append_eq_conv_conj append_take_drop_id)

text \<open>
  The test of \<^verbatim>\<open>validatePath\<close> compares strings; on resolved paths a string that starts
  with the root and a slash is a path whose segments continue the root's.
\<close>

lemma below_root_segments:
  assumes "startsWith (path_resolve cwd p) (path_resolve cwd g @ [SLASH])"
  shows "strict_prefix (segments (path_resolve cwd g)) (segments (path_resolve cwd p))"
proof -
  let ?q = "path_resolve cwd p" and ?r = "path_resolve cwd g"
  from assms obtain rest where q: "?q = ?r @ SLASH # rest"
    by (auto simp: startsWith_append)
  have rne: "?r \<noteq> []" using path_resolve_shape by blast
  have "length ?q \<ge> 2"
    using rne by (subst q) (cases ?r, auto)
  then have "?q \<noteq> [SLASH]" by auto
  then have lastq: "last ?q \<noteq> SLASH" using path_resolve_shape by blast
  have "segments rest \<noteq> []"
  proof
    assume "segments rest = []"
    then have "last (SLASH # rest) = SLASH" by (rule segments_Nil_last)
    with q have "last ?q = SLASH" by simp
    with lastq show False by simp
  qed
  with q show ?thesis
    by (simp add: segments_append strict_prefix_def)
qed

lemma validatePath_cases:
  "validatePath cwd svc p = Inr (path_resolve cwd p) \<or> validatePath cwd svc p = Inl PathEscape"
  by (simp add: validatePath_def Let_def)

lemma validatePath_inside:
  assumes "validatePath cwd svc p = Inr q"
  shows "q = path_resolve cwd p \<and> inside_root (path_resolve cwd (graphPath svc)) q"
proof -
  from assms have q: "q = path_resolve cwd p"
    and ok: "startsWith q (path_resolve cwd (graphPath svc) @ [SLASH]) \<or> q = path_resolve cwd (graphPath svc)"
    by (auto simp: validatePath_def Let_def split: if_splits)
  from ok show ?thesis
    using below_root_segments [of cwd p "graphPath svc"] q by (auto simp: inside_root_def)
qed

lemma try_candidate_inside:
  assumes "try_candidate cwd svc fs c = Some (Inr q)"
  shows "inside_root (path_resolve cwd (graphPath svc)) q"
proof -
  from assms have "validatePath cwd svc c = Inr q"
    by (auto simp: try_candidate_def split: sum.splits if_splits)
  then show ?thesis using validatePath_inside by blast
qed

lemma resolvePath_inside:
  assumes "resolvePath cwd svc fs x = Inr q"
  shows "inside_root (path_resolve cwd (graphPath svc)) q"
proof (cases "SLASH \<in> set x")
  case True
  with assms have "validatePath cwd svc (path_join (graphPath svc) x) = Inr q"
    by (simp add: resolvePath_def)
  then show ?thesis using validatePath_inside by blast
next
  case False
  with assms show ?thesis
    by (auto simp: resolvePath_def split: option.splits dest: try_candidate_inside)
qed

lemmas path_eval = js_def path_join_def path_normalize_def path_resolve_def normalizeString_def
  isAbsolute_def SLASH_def DOT_def startsWith_def Let_def

text \<open>
  Claim C1, as the code has it. Every path that \<^verbatim>\<open>validatePath\<close> accepts is the resolved
  candidate, and it is the resolved graph root or a strict descendant of it; a candidate
  whose resolved form is anywhere else fails with \<open>PathEscape\<close>. Every path that
  \<^verbatim>\<open>resolvePath\<close> returns is inside the root in the same sense, and an argument with a
  slash that leads outside once joined to the root (\<^verbatim>\<open>../../etc/passwd\<close>) fails with
  \<open>PathEscape\<close>. A symbolic link at the path is refused by \<^verbatim>\<open>checkSymlink\<close>, which
  the operations call on the path that \<^verbatim>\<open>resolvePath\<close> returned, with \<open>LinkAttack\<close>.
  The containment is one of normalised path text: \<^verbatim>\<open>resolvePath\<close> joins its argument to
  the root, so an argument that starts with a slash names a location below the root and
  is not refused.
\<close>

theorem C1_resolved_paths_stay_inside_root:
  "(validatePath cwd svc p = Inr q \<longrightarrow>
      q = path_resolve cwd p \<and> inside_root (path_resolve cwd (graphPath svc)) q) \<and>
   (\<not> inside_root (path_resolve cwd (graphPath svc)) (path_resolve cwd p) \<longrightarrow>
      validatePath cwd svc p = Inl PathEscape) \<and>
   (resolvePath cwd svc fs x = Inr q' \<longrightarrow> inside_root (path_resolve cwd (graphPath svc)) q') \<and>
   (SLASH \<in> set x \<and>
    \<not> inside_root (path_resolve cwd (graphPath svc)) (path_resolve cwd (path_join (graphPath svc) x)) \<longrightarrow>
      resolvePath cwd svc fs x = Inl PathEscape) \<and>
   (0 \<notin> set f \<and> map_of fs (path_resolve cwd f) = Some (Symlink t) \<longrightarrow>
      checkSymlink cwd fs f = Inl (LinkAttack SymbolicLink))"
proof (intro conjI impI)
  assume "validatePath cwd svc p = Inr q"
  then show "q = path_resolve cwd p" and "inside_root (path_resolve cwd (graphPath svc)) q"
    using validatePath_inside by blast+
next
  assume out: "\<not> inside_root (path_resolve cwd (graphPath svc)) (path_resolve cwd p)"
  show "validatePath cwd svc p = Inl PathEscape"
  proof (rule ccontr)
    assume "validatePath cwd svc p \<noteq> Inl PathEscape"
    with validatePath_cases [of cwd svc p] have "validatePath cwd svc p = Inr (path_resolve cwd p)"
      by blast
    with out show False using validatePath_inside by blast
  qed
next
  assume "resolvePath cwd svc fs x = Inr q'"
  then show "inside_root (path_resolve cwd (graphPath svc)) q'"
    by (rule resolvePath_inside)
next
  assume a: "SLASH \<in> set x \<and>
    \<not> inside_root (path_resolve cwd (graphPath svc)) (path_resolve cwd (path_join (graphPath svc) x))"
  then have eq: "resolvePath cwd svc fs x = validatePath cwd svc (path_join (graphPath svc) x)"
    by (simp add: resolvePath_def)
  show "resolvePath cwd svc fs x = Inl PathEscape"
  proof (rule ccontr)
    assume "resolvePath cwd svc fs x \<noteq> Inl PathEscape"
    with eq validatePath_cases [of cwd svc "path_join (graphPath svc) x"]
    have "validatePath cwd svc (path_join (graphPath svc) x) =
        Inr (path_resolve cwd (path_join (graphPath svc) x))"
      by auto
    with a show False using validatePath_inside by blast
  qed
next
  assume "0 \<notin> set f \<and> map_of fs (path_resolve cwd f) = Some (Symlink t)"
  then show "checkSymlink cwd fs f = Inl (LinkAttack SymbolicLink)"
    by (simp add: checkSymlink_def lstat_plain)
qed

text \<open>
  The theorem at a graph in \<^verbatim>\<open>/srv/graph\<close>: a page path is accepted and lies inside the
  root, the traversal \<^verbatim>\<open>../../etc/passwd\<close> is refused, and so is a link planted in the
  pages directory.
\<close>

theorem C1_resolved_paths_stay_inside_root_witness:
  "validatePath (js ''/srv'') (GraphService (js ''/srv/graph'')) (js ''/srv/graph/pages/a.md'') =
     Inr (js ''/srv/graph/pages/a.md'') \<and>
   inside_root (js ''/srv/graph'') (js ''/srv/graph/pages/a.md'') \<and>
   validatePath (js ''/srv'') (GraphService (js ''/srv/graph'')) (js ''/etc/passwd'') = Inl PathEscape \<and>
   resolvePath (js ''/srv'') (GraphService (js ''/srv/graph''))
     [(js ''/srv/graph/pages/evil.md'', Symlink (js ''/etc/passwd''))] (js ''../../etc/passwd'') =
     Inl PathEscape \<and>
   checkSymlink (js ''/srv'')
     [(js ''/srv/graph/pages/evil.md'', Symlink (js ''/etc/passwd''))] (js ''/srv/graph/pages/evil.md'') =
     Inl (LinkAttack SymbolicLink)"
proof -
  let ?cwd = "js ''/srv''" and ?svc = "GraphService (js ''/srv/graph'')"
  let ?fs = "[(js ''/srv/graph/pages/evil.md'', Symlink (js ''/etc/passwd''))]"
  have root: "path_resolve ?cwd (graphPath ?svc) = js ''/srv/graph''"
    by (simp add: GraphService_def path_eval)
  have ok: "validatePath ?cwd ?svc (js ''/srv/graph/pages/a.md'') = Inr (js ''/srv/graph/pages/a.md'')"
    by (simp add: validatePath_def GraphService_def path_eval)
  have out1: "\<not> inside_root (js ''/srv/graph'') (path_resolve ?cwd (js ''/etc/passwd''))"
    by (simp add: inside_root_def segments_def path_eval)
  have out2: "SLASH \<in> set (js ''../../etc/passwd'') \<and>
      \<not> inside_root (js ''/srv/graph'')
        (path_resolve ?cwd (path_join (graphPath ?svc) (js ''../../etc/passwd'')))"
    by (simp add: inside_root_def segments_def GraphService_def path_eval)
  have link: "0 \<notin> set (js ''/srv/graph/pages/evil.md'') \<and>
      map_of ?fs (path_resolve ?cwd (js ''/srv/graph/pages/evil.md'')) = Some (Symlink (js ''/etc/passwd''))"
    by (simp add: path_eval)
  note thm1 = C1_resolved_paths_stay_inside_root
    [of ?cwd ?svc "js ''/srv/graph/pages/a.md''" "js ''/srv/graph/pages/a.md''" ?fs
        "js ''../../etc/passwd''" "js ''/nowhere''" "js ''/srv/graph/pages/evil.md''" "js ''/etc/passwd''",
      unfolded root]
  note thm2 = C1_resolved_paths_stay_inside_root
    [of ?cwd ?svc "js ''/etc/passwd''" "js ''/nowhere''" ?fs
        "js ''../../etc/passwd''" "js ''/nowhere''" "js ''/srv/graph/pages/evil.md''" "js ''/etc/passwd''",
      unfolded root]
  from thm1 ok have "inside_root (js ''/srv/graph'') (js ''/srv/graph/pages/a.md'')" by blast
  moreover from thm2 out1
  have "validatePath ?cwd ?svc (js ''/etc/passwd'') = Inl PathEscape" by blast
  moreover from thm1 out2 have "resolvePath ?cwd ?svc ?fs (js ''../../etc/passwd'') = Inl PathEscape"
    by blast
  moreover from thm1 link
  have "checkSymlink ?cwd ?fs (js ''/srv/graph/pages/evil.md'') = Inl (LinkAttack SymbolicLink)"
    by blast
  ultimately show ?thesis using ok by blast
qed

text \<open>
  Claim C1 as stated fails: the absolute path \<^verbatim>\<open>/etc/passwd\<close>, outside the root
  \<^verbatim>\<open>/srv/graph\<close>, does not fail in \<^verbatim>\<open>resolvePath\<close>. It is joined to the root and
  the location below the root is returned.
\<close>

theorem C1_absolute_path_is_joined_not_refused:
  "resolvePath (js ''/srv'') (GraphService (js ''/srv/graph'')) [] (js ''/etc/passwd'') =
     Inr (js ''/srv/graph/etc/passwd'')"
  by (simp add: resolvePath_def validatePath_def GraphService_def path_eval)

section \<open>Properties of the graph view\<close>

lemma foldl_invariant:
  "P st \<Longrightarrow> (\<And>st x. P st \<Longrightarrow> P (f st x)) \<Longrightarrow> P (foldl f st xs)"
  by (induction xs arbitrary: st) auto

lemma walk_inv_addNode: "walk_inv st \<Longrightarrow> walk_inv (addNode i nm kind st)"
  by (auto simp: walk_inv_def addNode_def)

lemma nodeSet_addNode: "set (nodeSet (addNode i nm kind st)) = insert i (set (nodeSet st))"
  by (auto simp: addNode_def)

lemma walk_inv_push_edge:
  "walk_inv st \<Longrightarrow> s \<in> set (nodeSet st) \<Longrightarrow> t \<in> set (nodeSet st) \<Longrightarrow> walk_inv (push_edge s t kind st)"
  by (auto simp: walk_inv_def push_edge_def)

lemma nodeSet_push_edge [simp]: "nodeSet (push_edge s t kind st) = nodeSet st"
  by (simp add: push_edge_def)

lemma walk_inv_enqueue: "walk_inv st \<Longrightarrow> walk_inv (enqueue b nm d st)"
  by (auto simp: walk_inv_def enqueue_def)

lemma nodeSet_enqueue [simp]: "nodeSet (enqueue b nm d st) = nodeSet st"
  by (simp add: enqueue_def)

lemma walk_inv_at_link:
  "walk_inv_at nm st \<Longrightarrow>
   walk_inv_at nm (enqueue b l d (push_edge nm l LinkEdge (addNode l l PageNode st)))"
  unfolding walk_inv_at_def
  by (auto intro!: walk_inv_enqueue walk_inv_push_edge walk_inv_addNode simp: nodeSet_addNode)

lemma walk_inv_at_backlink:
  "walk_inv_at nm st \<Longrightarrow>
   walk_inv_at nm (enqueue b l d (push_edge l nm BacklinkEdge (addNode l l PageNode st)))"
  unfolding walk_inv_at_def
  by (auto intro!: walk_inv_enqueue walk_inv_push_edge walk_inv_addNode simp: nodeSet_addNode)

lemma walk_inv_at_tag:
  "walk_inv_at nm st \<Longrightarrow>
   walk_inv_at nm (push_edge nm (tag_id t) TagEdge (addNode (tag_id t) t TagNode st))"
  unfolding walk_inv_at_def
  by (auto intro!: walk_inv_push_edge walk_inv_addNode simp: nodeSet_addNode)

lemma walk_inv_at_plain_link:
  "walk_inv_at nm st \<Longrightarrow> walk_inv_at nm (push_edge nm l LinkEdge (addNode l l PageNode st))"
  unfolding walk_inv_at_def
  by (auto intro!: walk_inv_push_edge walk_inv_addNode simp: nodeSet_addNode)

lemma walk_inv_at_start: "walk_inv st \<Longrightarrow> walk_inv_at nm (addNode nm nm kind st)"
  unfolding walk_inv_at_def by (auto intro: walk_inv_addNode simp: nodeSet_addNode)

lemma walk_inv_expand:
  assumes "walk_inv st"
  shows "walk_inv (expand pg nm depth maxDepth st)"
proof -
  let ?k = "if isJournal pg then JournalNode else PageNode"
  have 0: "walk_inv_at nm (addNode nm nm ?k st)"
    using assms by (rule walk_inv_at_start)
  have 1: "walk_inv_at nm (add_links nm depth maxDepth (links pg) (addNode nm nm ?k st))"
    unfolding add_links_def by (rule foldl_invariant [where P = "walk_inv_at nm", OF 0]) (rule walk_inv_at_link)
  have 2: "walk_inv_at nm (add_backlinks nm depth maxDepth (backlinks pg)
      (add_links nm depth maxDepth (links pg) (addNode nm nm ?k st)))"
    unfolding add_backlinks_def by (rule foldl_invariant [where P = "walk_inv_at nm", OF 1]) (rule walk_inv_at_backlink)
  have "walk_inv_at nm (expand pg nm depth maxDepth st)"
    unfolding expand_def add_tags_def by (rule foldl_invariant [where P = "walk_inv_at nm", OF 2]) (rule walk_inv_at_tag)
  then show ?thesis by (simp add: walk_inv_at_def)
qed

lemma walk_inv_queue [simp]: "walk_inv (st\<lparr>queue := q\<rparr>) = walk_inv st"
  by (simp add: walk_inv_def)

lemma walk_inv_visited [simp]: "walk_inv (st\<lparr>visited := v\<rparr>) = walk_inv st"
  by (simp add: walk_inv_def)

lemma walk_inv_bfs: "walk_inv st \<Longrightarrow> walk_inv (bfs pages maxDepth st)"
proof (induction pages maxDepth st rule: bfs.induct)
  case (1 pages maxDepth st)
  show ?case
  proof (cases "queue st")
    case Nil
    with "1.prems" show ?thesis by (subst bfs.simps) simp
  next
    case (Cons x rest)
    obtain nm depth where x: "x = (nm, depth)" by (cases x)
    show ?thesis
    proof (cases "nm \<in> set (visited st) \<or> depth > maxDepth")
      case True
      have "walk_inv (bfs pages maxDepth (st\<lparr>queue := rest\<rparr>))"
        using "1.IH"(1) [OF Cons x [symmetric] True] "1.prems" by simp
      with Cons x True show ?thesis by (subst bfs.simps) simp
    next
      case False
      show ?thesis
      proof (cases "find (\<lambda>p. name p = nm) pages")
        case None
        have "walk_inv (bfs pages maxDepth (st\<lparr>queue := rest, visited := visited st @ [nm]\<rparr>))"
          using "1.IH"(2) [OF Cons x [symmetric] False None] "1.prems" by simp
        with Cons x False None show ?thesis by (subst bfs.simps) simp
      next
        case (Some pg)
        have "walk_inv (expand pg nm depth maxDepth (st\<lparr>queue := rest, visited := visited st @ [nm]\<rparr>))"
          using "1.prems" by (intro walk_inv_expand) simp
        then have "walk_inv (bfs pages maxDepth
            (expand pg nm depth maxDepth (st\<lparr>queue := rest, visited := visited st @ [nm]\<rparr>)))"
          using "1.IH"(3) [OF Cons x [symmetric] False Some] by simp
        with Cons x False Some show ?thesis by (subst bfs.simps) simp
      qed
    qed
  qed
qed

lemma walk_inv_full_graph: "walk_inv st \<Longrightarrow> walk_inv (full_graph pages st)"
  unfolding full_graph_def
proof (rule foldl_invariant [where P = walk_inv], assumption)
  fix st :: walk and pg :: PageMetadata
  assume inv: "walk_inv st"
  let ?k = "if isJournal pg then JournalNode else PageNode"
  have 0: "walk_inv_at (name pg) (addNode (name pg) (name pg) ?k st)"
    using inv by (rule walk_inv_at_start)
  have 1: "walk_inv_at (name pg)
      (foldl (\<lambda>st link. push_edge (name pg) link LinkEdge (addNode link link PageNode st))
         (addNode (name pg) (name pg) ?k st) (links pg))"
    by (rule foldl_invariant [where P = "walk_inv_at (name pg)", OF 0]) (rule walk_inv_at_plain_link)
  have "walk_inv_at (name pg) (add_tags (name pg) (tags pg)
      (foldl (\<lambda>st link. push_edge (name pg) link LinkEdge (addNode link link PageNode st))
         (addNode (name pg) (name pg) ?k st) (links pg)))"
    unfolding add_tags_def by (rule foldl_invariant [where P = "walk_inv_at (name pg)", OF 1]) (rule walk_inv_at_tag)
  then show "walk_inv (add_tags (name pg) (tags pg)
      (foldl (\<lambda>st link. push_edge (name pg) link LinkEdge (addNode link link PageNode st))
         (addNode (name pg) (name pg) ?k st) (links pg)))"
    by (simp add: walk_inv_at_def)
qed

lemma walk_inv_start: "walk_inv start" and walk_inv_start_queue: "walk_inv (start\<lparr>queue := q\<rparr>)"
  by (simp_all add: walk_inv_def start_def)

lemma graph_wf_of_walk: "walk_inv st \<Longrightarrow> graph_wf \<lparr>nodes = nodes st, edges = edges st\<rparr>"
  by (auto simp: graph_wf_def walk_inv_def)

lemma graph_wf_getGraph_of: "graph_wf (getGraph_of pages center depth)"
proof -
  have full: "graph_wf \<lparr>nodes = nodes (full_graph pages start), edges = edges (full_graph pages start)\<rparr>"
    by (intro graph_wf_of_walk walk_inv_full_graph walk_inv_start)
  have centred: "graph_wf \<lparr>nodes = nodes (bfs pages d (start\<lparr>queue := q\<rparr>)),
      edges = edges (bfs pages d (start\<lparr>queue := q\<rparr>))\<rparr>" for d q
    by (intro graph_wf_of_walk walk_inv_bfs walk_inv_start_queue)
  show ?thesis
  proof (cases center)
    case None
    with full show ?thesis by (simp add: getGraph_of_def Let_def)
  next
    case (Some c)
    with full centred show ?thesis by (simp add: getGraph_of_def Let_def)
  qed
qed

lemma tag_id_differs: "tag_id t \<noteq> t"
  by (simp add: tag_id_def js_def)

lemma add_all_append: "add_all acc (xs @ ys) = add_all (add_all acc xs) ys"
  by (induction xs arbitrary: acc) auto

lemma addNode_nodes:
  "ids_agree st \<Longrightarrow>
   nodes (addNode i nm k st) = add_all (nodes st) [\<lparr>node_id = i, node_name = nm, node_type = k\<rparr>] \<and>
   ids_agree (addNode i nm k st)"
  by (auto simp: ids_agree_def addNode_def)

lemma nodes_foldl:
  assumes step: "\<And>st x. ids_agree st \<Longrightarrow> nodes (f st x) = add_all (nodes st) [mk x] \<and> ids_agree (f st x)"
  shows "ids_agree st \<Longrightarrow> nodes (foldl f st xs) = add_all (nodes st) (map mk xs) \<and> ids_agree (foldl f st xs)"
proof (induction xs arbitrary: st)
  case Nil
  then show ?case by simp
next
  case (Cons x xs)
  from step [OF Cons.prems, of x] have 1: "nodes (f st x) = add_all (nodes st) [mk x]"
    and 2: "ids_agree (f st x)" by auto
  from Cons.IH [OF 2] 1 show ?case by simp
qed

lemma edges_foldl:
  assumes step: "\<And>st x. edges (f st x) = edges st @ [mk x]"
  shows "edges (foldl f st xs) = edges st @ map mk xs"
  by (induction xs arbitrary: st) (auto simp: step)

lemma queue_foldl:
  assumes step: "\<And>st x. queue (f st x) = queue st"
  shows "queue (foldl f st xs) = queue st"
  by (induction xs arbitrary: st) (auto simp: step)

lemma nodes_push_edge [simp]: "nodes (push_edge s t k st) = nodes st"
  and ids_agree_push_edge [simp]: "ids_agree (push_edge s t k st) = ids_agree st"
  and nodes_enqueue [simp]: "nodes (enqueue b nm d st) = nodes st"
  and ids_agree_enqueue [simp]: "ids_agree (enqueue b nm d st) = ids_agree st"
  and edges_enqueue [simp]: "edges (enqueue b nm d st) = edges st"
  and edges_addNode [simp]: "edges (addNode i nm kd st) = edges st"
  and queue_addNode [simp]: "queue (addNode i nm kd st) = queue st"
  and queue_push_edge [simp]: "queue (push_edge s t k st) = queue st"
  and queue_enqueue_False [simp]: "queue (enqueue False nm d st) = queue st"
  by (simp_all add: push_edge_def enqueue_def ids_agree_def addNode_def)

lemma edges_push_edge [simp]:
  "edges (push_edge s t k st) = edges st @ [\<lparr>source = s, target = t, edge_type = k\<rparr>]"
  by (simp add: push_edge_def)

lemma add_links_nodes:
  "ids_agree st \<Longrightarrow>
   nodes (add_links c d m ls st) = add_all (nodes st) (map page_node ls) \<and>
   ids_agree (add_links c d m ls st)"
  unfolding add_links_def
  by (rule nodes_foldl [where mk = page_node]) (simp_all add: addNode_nodes page_node_def)

lemma add_backlinks_nodes:
  "ids_agree st \<Longrightarrow>
   nodes (add_backlinks c d m bs st) = add_all (nodes st) (map page_node bs) \<and>
   ids_agree (add_backlinks c d m bs st)"
  unfolding add_backlinks_def
  by (rule nodes_foldl [where mk = page_node]) (simp_all add: addNode_nodes page_node_def)

lemma add_tags_nodes:
  "ids_agree st \<Longrightarrow>
   nodes (add_tags c ts st) = add_all (nodes st) (map tag_node ts) \<and> ids_agree (add_tags c ts st)"
  unfolding add_tags_def
  by (rule nodes_foldl [where mk = tag_node]) (simp_all add: addNode_nodes tag_node_def)

lemma add_links_edges:
  "edges (add_links c d m ls st) =
     edges st @ map (\<lambda>l. \<lparr>source = c, target = l, edge_type = LinkEdge\<rparr>) ls"
  unfolding add_links_def by (rule edges_foldl) simp

lemma add_backlinks_edges:
  "edges (add_backlinks c d m bs st) =
     edges st @ map (\<lambda>b. \<lparr>source = b, target = c, edge_type = BacklinkEdge\<rparr>) bs"
  unfolding add_backlinks_def by (rule edges_foldl) simp

lemma add_tags_edges:
  "edges (add_tags c ts st) =
     edges st @ map (\<lambda>t. \<lparr>source = c, target = tag_id t, edge_type = TagEdge\<rparr>) ts"
  unfolding add_tags_def by (rule edges_foldl) simp

lemma add_links_queue: "queue (add_links c d d ls st) = queue st"
  unfolding add_links_def by (rule queue_foldl) simp

lemma add_backlinks_queue: "queue (add_backlinks c d d bs st) = queue st"
  unfolding add_backlinks_def by (rule queue_foldl) simp

lemma add_tags_queue: "queue (add_tags c ts st) = queue st"
  unfolding add_tags_def by (rule queue_foldl) simp

text \<open>One expansion without enqueueing, in closed form.\<close>

lemma expand_closed:
  assumes "ids_agree st"
  shows "nodes (expand pg c d d st) =
           add_all (nodes st)
             (center_node pg c # map page_node (links pg) @ map page_node (backlinks pg) @
              map tag_node (tags pg))"
    and "edges (expand pg c d d st) =
           edges st @
           map (\<lambda>l. \<lparr>source = c, target = l, edge_type = LinkEdge\<rparr>) (links pg) @
           map (\<lambda>b. \<lparr>source = b, target = c, edge_type = BacklinkEdge\<rparr>) (backlinks pg) @
           map (\<lambda>t. \<lparr>source = c, target = tag_id t, edge_type = TagEdge\<rparr>) (tags pg)"
    and "queue (expand pg c d d st) = queue st"
proof -
  let ?s0 = "addNode c c (if isJournal pg then JournalNode else PageNode) st"
  let ?s1 = "add_links c d d (links pg) ?s0"
  let ?s2 = "add_backlinks c d d (backlinks pg) ?s1"
  have n0: "nodes ?s0 = add_all (nodes st) [center_node pg c]" and a0: "ids_agree ?s0"
    using addNode_nodes [OF assms] by (simp_all add: center_node_def)
  note l = add_links_nodes [OF a0, of c d d "links pg"]
  note b = add_backlinks_nodes [OF l [THEN conjunct2], of c d d "backlinks pg"]
  note t = add_tags_nodes [OF b [THEN conjunct2], of c "tags pg"]
  show "nodes (expand pg c d d st) =
           add_all (nodes st)
             (center_node pg c # map page_node (links pg) @ map page_node (backlinks pg) @
              map tag_node (tags pg))"
    unfolding expand_def
    by (simp only: t [THEN conjunct1] b [THEN conjunct1] l [THEN conjunct1] n0)
       (simp add: add_all_append)
  show "edges (expand pg c d d st) =
           edges st @
           map (\<lambda>l. \<lparr>source = c, target = l, edge_type = LinkEdge\<rparr>) (links pg) @
           map (\<lambda>b. \<lparr>source = b, target = c, edge_type = BacklinkEdge\<rparr>) (backlinks pg) @
           map (\<lambda>t. \<lparr>source = c, target = tag_id t, edge_type = TagEdge\<rparr>) (tags pg)"
    by (simp add: expand_def add_tags_edges add_backlinks_edges add_links_edges)
  show "queue (expand pg c d d st) = queue st"
    by (simp add: expand_def add_tags_queue add_backlinks_queue add_links_queue)
qed

lemma getGraph_of_depth0:
  assumes c: "c \<noteq> []" and f: "find (\<lambda>p. name p = c) pages = Some pg"
  shows "getGraph_of pages (Some c) (Some 0) =
     \<lparr>nodes = dedup_by_id
        (center_node pg c # map page_node (links pg) @ map page_node (backlinks pg) @
         map tag_node (tags pg)),
      edges =
        map (\<lambda>l. \<lparr>source = c, target = l, edge_type = LinkEdge\<rparr>) (links pg) @
        map (\<lambda>b. \<lparr>source = b, target = c, edge_type = BacklinkEdge\<rparr>) (backlinks pg) @
        map (\<lambda>t. \<lparr>source = c, target = tag_id t, edge_type = TagEdge\<rparr>) (tags pg)\<rparr>"
proof -
  let ?st = "start\<lparr>queue := [], visited := visited start @ [c]\<rparr>"
  have ag: "ids_agree ?st" by (simp add: ids_agree_def start_def)
  have 1: "bfs pages 0 (start\<lparr>queue := [(c, 0)]\<rparr>) = bfs pages 0 (expand pg c 0 0 ?st)"
    using f by (subst bfs.simps) (simp add: start_def)
  have 2: "bfs pages 0 (expand pg c 0 0 ?st) = expand pg c 0 0 ?st"
    using expand_closed(3) [OF ag, of pg c 0] by (subst bfs.simps) simp
  have r: "bfs pages 0 (start\<lparr>queue := [(c, 0)]\<rparr>) = expand pg c 0 0 ?st"
    using 1 2 by simp
  have ns: "nodes ?st = []" "edges ?st = []"
    by (simp_all add: start_def)
  have d0: "nat (max 0 (min 0 MAX_DEPTH)) = 0"
    by (simp add: MAX_DEPTH_def)
  have "getGraph_of pages (Some c) (Some 0) =
      \<lparr>nodes = nodes (expand pg c 0 0 ?st), edges = edges (expand pg c 0 0 ?st)\<rparr>"
    using c by (simp add: getGraph_of_def Let_def d0 r)
  then show ?thesis
    by (simp add: expand_closed(1,2) [OF ag] ns dedup_by_id_def)
qed

text \<open>
  Claim C9. Every graph that \<^verbatim>\<open>getGraph\<close> returns, for the whole store or around a
  centre, at any depth, has pairwise distinct node ids, and both ends of every edge are
  ids of nodes in the returned list. This holds for any list of pages, in particular for
  the one \<^verbatim>\<open>listPages\<close> reads from the store. The id of a tag node is \<^verbatim>\<open>tag:\<close> followed by
  the tag, which differs from the id of a page node of the same name.
\<close>

theorem C9_graph_nodes_distinct_edges_closed:
  "graph_wf (getGraph cwd svc fs center depth) \<and>
   graph_wf (getGraph_of pages center depth) \<and>
   tag_id t \<noteq> t"
  by (simp add: getGraph_def graph_wf_getGraph_of tag_id_differs)

text \<open>
  The theorem at a store with the one page \<^verbatim>\<open>Goals\<close>, whose text links to \<^verbatim>\<open>Plan\<close> and
  carries the tag \<^verbatim>\<open>work\<close>: the view around \<^verbatim>\<open>Goals\<close> at depth 1 has three nodes and two
  edges, and it is well formed.
\<close>

theorem C9_graph_nodes_distinct_edges_closed_witness:
  "getGraph (js ''/srv'') (GraphService (js ''/srv/graph''))
     [(js ''/srv/graph'', Dir), (js ''/srv/graph/pages'', Dir),
      (js ''/srv/graph/pages/Goals.md'', File (js ''- [[Plan]]\<newline>#work'') 1)]
     (Some (js ''Goals'')) (Some 1) =
   \<lparr>nodes = [\<lparr>node_id = js ''Goals'', node_name = js ''Goals'', node_type = PageNode\<rparr>,
              \<lparr>node_id = js ''Plan'', node_name = js ''Plan'', node_type = PageNode\<rparr>,
              \<lparr>node_id = js ''tag:work'', node_name = js ''work'', node_type = TagNode\<rparr>],
     edges = [\<lparr>source = js ''Goals'', target = js ''Plan'', edge_type = LinkEdge\<rparr>,
              \<lparr>source = js ''Goals'', target = js ''tag:work'', edge_type = TagEdge\<rparr>]\<rparr> \<and>
   graph_wf
     (getGraph (js ''/srv'') (GraphService (js ''/srv/graph''))
        [(js ''/srv/graph'', Dir), (js ''/srv/graph/pages'', Dir),
         (js ''/srv/graph/pages/Goals.md'', File (js ''- [[Plan]]\<newline>#work'') 1)]
        (Some (js ''Goals'')) (Some 1)) \<and>
   tag_id (js ''work'') \<noteq> js ''work''"
proof -
  let ?g = "getGraph (js ''/srv'') (GraphService (js ''/srv/graph''))
     [(js ''/srv/graph'', Dir), (js ''/srv/graph/pages'', Dir),
      (js ''/srv/graph/pages/Goals.md'', File (js ''- [[Plan]]\<newline>#work'') 1)]
     (Some (js ''Goals'')) (Some 1)"
  have v: "?g =
   \<lparr>nodes = [\<lparr>node_id = js ''Goals'', node_name = js ''Goals'', node_type = PageNode\<rparr>,
              \<lparr>node_id = js ''Plan'', node_name = js ''Plan'', node_type = PageNode\<rparr>,
              \<lparr>node_id = js ''tag:work'', node_name = js ''work'', node_type = TagNode\<rparr>],
     edges = [\<lparr>source = js ''Goals'', target = js ''Plan'', edge_type = LinkEdge\<rparr>,
              \<lparr>source = js ''Goals'', target = js ''tag:work'', edge_type = TagEdge\<rparr>]\<rparr>"
    by code_simp
  note C9_graph_nodes_distinct_edges_closed
    [of "js ''/srv''" "GraphService (js ''/srv/graph'')"
        "[(js ''/srv/graph'', Dir), (js ''/srv/graph/pages'', Dir),
          (js ''/srv/graph/pages/Goals.md'', File (js ''- [[Plan]]\<newline>#work'') 1)]"
        "Some (js ''Goals'')" "Some 1" "[]" "js ''work''"]
  with v show ?thesis by blast
qed

text \<open>
  Claim C4, as the code has it. For a centre that names a listed page, \<^verbatim>\<open>getGraph\<close>
  with depth 0 expands the centre and nothing else: the nodes are the centre, a page
  node for each of its links, a page node for each of its backlinks and a tag node for
  each of its tags (a node whose id was added before is dropped); the edges are the
  centre's link, backlink and tag edges, in this order. No neighbour is expanded, so
  every edge has the centre at one end.
\<close>

theorem C4_depth_zero_expands_the_center_only:
  assumes "c \<noteq> []"
    and "find (\<lambda>p. name p = c) (listPages cwd svc fs None) = Some pg"
  shows "getGraph cwd svc fs (Some c) (Some 0) =
     \<lparr>nodes = dedup_by_id
        (center_node pg c # map page_node (links pg) @ map page_node (backlinks pg) @
         map tag_node (tags pg)),
      edges =
        map (\<lambda>l. \<lparr>source = c, target = l, edge_type = LinkEdge\<rparr>) (links pg) @
        map (\<lambda>b. \<lparr>source = b, target = c, edge_type = BacklinkEdge\<rparr>) (backlinks pg) @
        map (\<lambda>t. \<lparr>source = c, target = tag_id t, edge_type = TagEdge\<rparr>) (tags pg)\<rparr>"
  unfolding getGraph_def using assms by (rule getGraph_of_depth0)

theorem C4_depth_zero_expands_the_center_only_witness:
  "getGraph (js ''/srv'') (GraphService (js ''/srv/graph''))
     [(js ''/srv/graph'', Dir), (js ''/srv/graph/pages'', Dir),
      (js ''/srv/graph/pages/Goals.md'', File (js ''- [[Plan]]\<newline>#work'') 1),
      (js ''/srv/graph/pages/Ideas.md'', File (js ''see [[Goals]]'') 1)]
     (Some (js ''Goals'')) (Some 0) =
   \<lparr>nodes = [\<lparr>node_id = js ''Goals'', node_name = js ''Goals'', node_type = PageNode\<rparr>,
              \<lparr>node_id = js ''Plan'', node_name = js ''Plan'', node_type = PageNode\<rparr>,
              \<lparr>node_id = js ''Ideas'', node_name = js ''Ideas'', node_type = PageNode\<rparr>,
              \<lparr>node_id = js ''tag:work'', node_name = js ''work'', node_type = TagNode\<rparr>],
     edges = [\<lparr>source = js ''Goals'', target = js ''Plan'', edge_type = LinkEdge\<rparr>,
              \<lparr>source = js ''Ideas'', target = js ''Goals'', edge_type = BacklinkEdge\<rparr>,
              \<lparr>source = js ''Goals'', target = js ''tag:work'', edge_type = TagEdge\<rparr>]\<rparr>"
proof -
  let ?fs = "[(js ''/srv/graph'', Dir), (js ''/srv/graph/pages'', Dir),
      (js ''/srv/graph/pages/Goals.md'', File (js ''- [[Plan]]\<newline>#work'') 1),
      (js ''/srv/graph/pages/Ideas.md'', File (js ''see [[Goals]]'') 1)]"
  let ?pg = "\<lparr>path = js ''pages/Goals.md'', name = js ''Goals'', tags = [js ''work''],
      links = [js ''Plan''], backlinks = [js ''Ideas''], isJournal = False\<rparr>"
  have c: "js ''Goals'' \<noteq> []" by (simp add: js_def)
  have f: "find (\<lambda>p. name p = js ''Goals'')
      (listPages (js ''/srv'') (GraphService (js ''/srv/graph'')) ?fs None) = Some ?pg"
    by code_simp
  show ?thesis
    unfolding C4_depth_zero_expands_the_center_only [OF c f]
    by (simp add: dedup_by_id_def center_node_def page_node_def tag_node_def tag_id_def js_def)
qed

text \<open>
  Claim C4 as stated fails: at depth 0 the view around \<^verbatim>\<open>Goals\<close>, whose text links to
  \<^verbatim>\<open>Plan\<close>, holds a node for the link neighbour \<^verbatim>\<open>Plan\<close> and the link edge to it. The
  depth bounds which pages are taken from the queue and expanded, not which neighbours
  of an expanded page are shown.
\<close>

theorem C4_depth_zero_shows_link_neighbours:
  "getGraph (js ''/srv'') (GraphService (js ''/srv/graph''))
     [(js ''/srv/graph'', Dir), (js ''/srv/graph/pages'', Dir),
      (js ''/srv/graph/pages/Goals.md'', File (js ''- [[Plan]]\<newline>#work'') 1)]
     (Some (js ''Goals'')) (Some 0) =
   \<lparr>nodes = [\<lparr>node_id = js ''Goals'', node_name = js ''Goals'', node_type = PageNode\<rparr>,
              \<lparr>node_id = js ''Plan'', node_name = js ''Plan'', node_type = PageNode\<rparr>,
              \<lparr>node_id = js ''tag:work'', node_name = js ''work'', node_type = TagNode\<rparr>],
     edges = [\<lparr>source = js ''Goals'', target = js ''Plan'', edge_type = LinkEdge\<rparr>,
              \<lparr>source = js ''Goals'', target = js ''tag:work'', edge_type = TagEdge\<rparr>]\<rparr>"
  by code_simp

section \<open>Properties of the index\<close>

lemma add_backlink_inner:
  "set (lookup_list (foldl (add_backlink n) m ls) k) =
     set (lookup_list m k) \<union> (if k \<in> set ls then {n} else {})"
  by (induction ls arbitrary: m) (auto simp: add_backlink_def lookup_list_def Let_def)

lemma build_backlinks_outer:
  "set (lookup_list (foldl (\<lambda>m pg. foldl (add_backlink (name pg)) m (links pg)) m ps) k) =
     set (lookup_list m k) \<union> {name p |p. p \<in> set ps \<and> k \<in> set (links p)}"
proof (induction ps arbitrary: m)
  case Nil
  then show ?case by simp
next
  case (Cons p ps)
  show ?case
    by (simp add: Cons.IH add_backlink_inner) auto
qed

lemma backlinksMap_set:
  "set (lookup_list (build_backlinksMap allPages) k) =
     {name p |p. p \<in> set allPages \<and> k \<in> set (links p)}"
proof -
  have "lookup_list Map.empty k = ([] :: jstring list)"
    by (simp add: lookup_list_def)
  then show ?thesis
    unfolding build_backlinksMap_def build_backlinks_outer by simp
qed

lemma listPages_of_backlinks:
  assumes "B \<in> set (listPages_of allPages folder)"
  shows "set (backlinks B) = {name A |A. A \<in> set allPages \<and> name B \<in> set (links A)}"
proof -
  from assms obtain p where p: "p \<in> set allPages"
    and B: "B = p\<lparr>backlinks := lookup_list (build_backlinksMap allPages) (name p)\<rparr>"
    by (auto simp: listPages_of_def Let_def lookup_list_def split: option.splits if_splits)
  then show ?thesis by (simp add: backlinksMap_set)
qed

lemma collect_folder_from_file:
  "p \<in> set (collect_folder cwd fs dir label journal files acc) \<Longrightarrow>
   p \<in> set acc \<or> from_file cwd fs dir label journal p"
proof (induction files arbitrary: acc)
  case Nil
  then show ?case by simp
next
  case (Cons entry rest)
  show ?case
  proof (cases "extname entry = js ''.md''")
    case False
    with Cons show ?thesis by simp
  next
    case md: True
    show ?thesis
    proof (cases "lstat cwd fs (path_join dir entry)")
      case (Inl e)
      with md Cons show ?thesis by (simp add: Let_def)
    next
      case (Inr st)
      show ?thesis
      proof (cases "isSymbolicLink st")
        case True
        with md Inr Cons show ?thesis by (simp add: Let_def)
      next
        case False
        show ?thesis
        proof (cases "readFile cwd fs (path_join dir entry)")
          case (Inl e)
          with md Inr False Cons.prems show ?thesis by (simp add: Let_def)
        next
          case r: (Inr body)
          let ?pg = "\<lparr>path = label @ entry, name = basename entry (js ''.md''), tags = extractTags body,
             links = extractLinks body, backlinks = [], isJournal = journal\<rparr>"
          from md Inr False r Cons.prems
          have "p \<in> set (collect_folder cwd fs dir label journal rest (acc @ [?pg]))"
            by (simp add: Let_def)
          from Cons.IH [OF this] have "p \<in> set acc \<or> p = ?pg \<or> from_file cwd fs dir label journal p"
            by auto
          moreover have "from_file cwd fs dir label journal ?pg"
            unfolding from_file_def using r by blast
          ultimately show ?thesis by auto
        qed
      qed
    qed
  qed
qed

lemma collectAllPages_from_file:
  assumes "p \<in> set (collectAllPages cwd svc fs)"
  shows "from_file cwd fs (pagesPath svc) (js ''pages/'') False p \<or>
         from_file cwd fs (journalsPath svc) (js ''journals/'') True p"
proof -
  let ?p1 = "case readdir cwd fs (pagesPath svc) of Inl _ \<Rightarrow> []
     | Inr pageFiles \<Rightarrow> collect_folder cwd fs (pagesPath svc) (js ''pages/'') False pageFiles []"
  have 1: "q \<in> set ?p1 \<Longrightarrow> from_file cwd fs (pagesPath svc) (js ''pages/'') False q" for q
    by (auto split: sum.splits dest: collect_folder_from_file)
  from assms have "p \<in> set ?p1 \<or> from_file cwd fs (journalsPath svc) (js ''journals/'') True p"
    by (auto simp: collectAllPages_def Let_def split: sum.splits dest: collect_folder_from_file)
  with 1 show ?thesis by blast
qed

text \<open>
  Claim C2, as the code has it. \<^verbatim>\<open>listPages\<close> computes from the store it is given, and
  keeps nothing between calls. For every page \<open>B\<close> it lists, the backlinks of \<open>B\<close> are, as
  a set, the names of the indexed pages whose extracted links contain the name of \<open>B\<close>;
  every indexed page was read from a file of the pages or journals folder, and its links
  are those extracted from the text of that file. So an indexed page whose extracted
  links contain \<open>B\<close> is among the backlinks of \<open>B\<close>, and once no indexed page of a name
  has \<open>B\<close> among its extracted links, the name is not among them.
\<close>

theorem C2_backlinks_invert_the_extracted_links:
  assumes "B \<in> set (listPages cwd svc fs folder)"
  shows "set (backlinks B) =
           {name A |A. A \<in> set (collectAllPages cwd svc fs) \<and> name B \<in> set (links A)} \<and>
         (\<forall>A\<in>set (collectAllPages cwd svc fs).
            (name B \<in> set (links A) \<longrightarrow> name A \<in> set (backlinks B)) \<and>
            (from_file cwd fs (pagesPath svc) (js ''pages/'') False A \<or>
             from_file cwd fs (journalsPath svc) (js ''journals/'') True A)) \<and>
         ((\<forall>A\<in>set (collectAllPages cwd svc fs). name A = a \<longrightarrow> name B \<notin> set (links A)) \<longrightarrow>
            a \<notin> set (backlinks B))"
proof -
  have eq: "set (backlinks B) =
      {name A |A. A \<in> set (collectAllPages cwd svc fs) \<and> name B \<in> set (links A)}"
    using assms unfolding listPages_def by (rule listPages_of_backlinks)
  show ?thesis
    unfolding eq using collectAllPages_from_file by blast
qed

text \<open>
  The theorem at a store with the pages \<^verbatim>\<open>A\<close>, whose text links to \<^verbatim>\<open>B\<close>, and \<^verbatim>\<open>B\<close>:
  \<^verbatim>\<open>A\<close> is a backlink of \<^verbatim>\<open>B\<close>; after \<^verbatim>\<open>updatePage\<close> has replaced the text of \<^verbatim>\<open>A\<close> by one
  without the link, the next \<^verbatim>\<open>listPages\<close> reports no backlink \<^verbatim>\<open>A\<close> for \<^verbatim>\<open>B\<close>.
\<close>

theorem C2_backlinks_invert_the_extracted_links_witness:
  "\<lparr>path = js ''pages/B.md'', name = js ''B'', tags = [], links = [], backlinks = [js ''A''],
      isJournal = False\<rparr>
     \<in> set (listPages (js ''/srv'') (GraphService (js ''/srv/graph''))
         [(js ''/srv/graph'', Dir), (js ''/srv/graph/pages'', Dir),
          (js ''/srv/graph/pages/A.md'', File (js ''see [[B]]'') 1),
          (js ''/srv/graph/pages/B.md'', File (js ''b'') 1)] None) \<and>
   snd (updatePage (js ''/srv'') (GraphService (js ''/srv/graph''))
         [(js ''/srv/graph'', Dir), (js ''/srv/graph/pages'', Dir),
          (js ''/srv/graph/pages/A.md'', File (js ''see [[B]]'') 1),
          (js ''/srv/graph/pages/B.md'', File (js ''b'') 1)] (js ''A'') (js ''no link'') None) =
     [(js ''/srv/graph'', Dir), (js ''/srv/graph/pages'', Dir),
      (js ''/srv/graph/pages/A.md'', File (js ''no link'') 1),
      (js ''/srv/graph/pages/B.md'', File (js ''b'') 1)] \<and>
   listPages (js ''/srv'') (GraphService (js ''/srv/graph''))
     [(js ''/srv/graph'', Dir), (js ''/srv/graph/pages'', Dir),
      (js ''/srv/graph/pages/A.md'', File (js ''no link'') 1),
      (js ''/srv/graph/pages/B.md'', File (js ''b'') 1)] None =
     [\<lparr>path = js ''pages/A.md'', name = js ''A'', tags = [], links = [], backlinks = [],
         isJournal = False\<rparr>,
      \<lparr>path = js ''pages/B.md'', name = js ''B'', tags = [], links = [], backlinks = [],
         isJournal = False\<rparr>] \<and>
   js ''A'' \<notin>
     set (backlinks (listPages (js ''/srv'') (GraphService (js ''/srv/graph''))
       [(js ''/srv/graph'', Dir), (js ''/srv/graph/pages'', Dir),
        (js ''/srv/graph/pages/A.md'', File (js ''no link'') 1),
        (js ''/srv/graph/pages/B.md'', File (js ''b'') 1)] None ! 1))"
proof -
  let ?cwd = "js ''/srv''" and ?svc = "GraphService (js ''/srv/graph'')"
  let ?fs0 = "[(js ''/srv/graph'', Dir), (js ''/srv/graph/pages'', Dir),
          (js ''/srv/graph/pages/A.md'', File (js ''see [[B]]'') 1),
          (js ''/srv/graph/pages/B.md'', File (js ''b'') 1)]"
  let ?fs1 = "[(js ''/srv/graph'', Dir), (js ''/srv/graph/pages'', Dir),
      (js ''/srv/graph/pages/A.md'', File (js ''no link'') 1),
      (js ''/srv/graph/pages/B.md'', File (js ''b'') 1)]"
  let ?A0 = "\<lparr>path = js ''pages/A.md'', name = js ''A'', tags = [], links = [js ''B''], backlinks = [],
      isJournal = False\<rparr>"
  let ?B0 = "\<lparr>path = js ''pages/B.md'', name = js ''B'', tags = [], links = [], backlinks = [],
      isJournal = False\<rparr>"
  let ?A1 = "\<lparr>path = js ''pages/A.md'', name = js ''A'', tags = [], links = [], backlinks = [],
      isJournal = False\<rparr>"
  let ?B0' = "\<lparr>path = js ''pages/B.md'', name = js ''B'', tags = [], links = [],
      backlinks = [js ''A''], isJournal = False\<rparr>"
  have l0: "listPages ?cwd ?svc ?fs0 None = [?A0, ?B0']"
    by code_simp
  have up: "snd (updatePage ?cwd ?svc ?fs0 (js ''A'') (js ''no link'') None) = ?fs1"
    by code_simp
  have idx1: "collectAllPages ?cwd ?svc ?fs1 = [?A1, ?B0]"
    by code_simp
  have l1: "listPages ?cwd ?svc ?fs1 None = [?A1, ?B0]"
    by code_simp
  have in0: "?B0' \<in> set (listPages ?cwd ?svc ?fs0 None)"
    unfolding l0 by simp
  have in1: "?B0 \<in> set (listPages ?cwd ?svc ?fs1 None)"
    unfolding l1 by simp
  have gone: "\<forall>A\<in>set (collectAllPages ?cwd ?svc ?fs1). name A = js ''A'' \<longrightarrow> name ?B0 \<notin> set (links A)"
    unfolding idx1 by simp
  from C2_backlinks_invert_the_extracted_links [OF in1, of "js ''A''"] gone
  have "js ''A'' \<notin> set (backlinks ?B0)" by blast
  then have "js ''A'' \<notin> set (backlinks (listPages ?cwd ?svc ?fs1 None ! 1))"
    unfolding l1 by simp
  with in0 up l1 show ?thesis by blast
qed

text \<open>
  Claim C2 as stated fails: the text of \<^verbatim>\<open>A\<close> contains \<^verbatim>\<open>[[B]]\<close>, and \<^verbatim>\<open>A\<close> is no backlink
  of \<^verbatim>\<open>B\<close>. The expression of \<^verbatim>\<open>extractLinks\<close> matches from the first \<^verbatim>\<open>[[\<close>, and the link
  it extracts is \<^verbatim>\<open>x[[B\<close>.
\<close>

theorem C2_text_with_link_without_backlink:
  "includes_js (js ''[[x[[B]]'') (js ''[[B]]'') \<and>
   listPages (js ''/srv'') (GraphService (js ''/srv/graph''))
     [(js ''/srv/graph'', Dir), (js ''/srv/graph/pages'', Dir),
      (js ''/srv/graph/pages/A.md'', File (js ''[[x[[B]]'') 1),
      (js ''/srv/graph/pages/B.md'', File (js ''b'') 1)] None =
     [\<lparr>path = js ''pages/A.md'', name = js ''A'', tags = [], links = [js ''x[[B''], backlinks = [],
         isJournal = False\<rparr>,
      \<lparr>path = js ''pages/B.md'', name = js ''B'', tags = [], links = [], backlinks = [],
         isJournal = False\<rparr>]"
  by code_simp

section \<open>Properties of the parser\<close>

lemma body_len_all: "\<not> (\<exists>x\<in>set xs. \<not> P x) \<Longrightarrow> length (dropWhile P (rev xs)) = 0"
  by simp

lemma body_len_keep: "\<not> P x \<Longrightarrow> length (dropWhile P (rev (x # xs))) = Suc (length (dropWhile P (rev xs)))"
  by (cases "\<forall>y\<in>set xs. P y") (auto simp: dropWhile_append)

lemma body_len_skip:
  "\<exists>y\<in>set xs. \<not> P y \<Longrightarrow> length (dropWhile P (rev (x # xs))) = Suc (length (dropWhile P (rev xs)))"
  by (auto simp: dropWhile_append)

lemma parse_loop_closed:
  "parse_loop ls i b props =
     ((if \<exists>l\<in>set (scanned ls). match_property l \<noteq> None then i + body_start ls else b),
      foldl prop_step props (scanned ls))"
proof (induction ls arbitrary: i b props)
  case Nil
  then show ?case by (simp add: scanned_def)
next
  case (Cons l ls)
  let ?P = "\<lambda>l. match_property l = None"
  show ?case
  proof (cases "match_property l")
    case (Some kv)
    obtain key v where kv: "kv = (key, v)" by (cases kv)
    have sc: "scanned (l # ls) = l # scanned ls"
      using Some by (simp add: scanned_def)
    have len: "body_start (l # ls) = Suc (body_start ls)"
      unfolding body_start_def sc using Some by (intro body_len_keep) simp
    have none: "body_start ls = 0" if "\<not> (\<exists>l\<in>set (scanned ls). match_property l \<noteq> None)"
      unfolding body_start_def using that by (intro body_len_all) simp
    show ?thesis
      using Some kv none by (auto simp: Cons.IH sc len prop_step_def)
  next
    case None
    show ?thesis
    proof (cases "trim l = []")
      case True
      have sc: "scanned (l # ls) = l # scanned ls"
        using True by (simp add: scanned_def)
      have len: "body_start (l # ls) = Suc (body_start ls)"
        if "\<exists>l\<in>set (scanned ls). match_property l \<noteq> None"
        unfolding body_start_def sc using that by (intro body_len_skip) simp
      show ?thesis
        using None True len by (auto simp: Cons.IH sc prop_step_def)
    next
      case False
      with None show ?thesis by (simp add: scanned_def)
    qed
  qed
qed

lemma parseProperties_closed:
  "parseProperties text =
     (foldl prop_step [] (scanned (split_on NL text)),
      join_with [NL] (drop (body_start (split_on NL text)) (split_on NL text)))"
proof -
  have "body_start ls = 0" if "\<not> (\<exists>l\<in>set (scanned ls). match_property l \<noteq> None)" for ls
    unfolding body_start_def using that by (intro body_len_all) simp
  then show ?thesis
    by (auto simp: parseProperties_def parse_loop_closed Let_def)
qed

lemma match_property_letters:
  assumes "key \<noteq> []" and "list_all key_char key" and "list_all (\<lambda>c. \<not> is_line_terminator c) v"
  shows "match_property (key @ js '':: '' @ v) = Some (key, dropWhile is_space v)"
proof -
  have colon: "\<not> key_char 0x3A" by (simp add: key_char_def)
  have tw: "takeWhile key_char (key @ js '':: '' @ v) = key"
    using assms(2) colon by (simp add: js_def list_all_iff)
  have dw: "dropWhile key_char (key @ js '':: '' @ v) = js '':: '' @ v"
    using assms(2) colon by (simp add: js_def list_all_iff)
  have sp: "is_space 0x20" by (simp add: is_space_def)
  have "list_all (\<lambda>c. \<not> is_line_terminator c) (dropWhile is_space v)"
    using assms(3) by (auto simp: list_all_iff dest: set_dropWhileD)
  then show ?thesis
    using assms(1) sp by (simp add: match_property_def tw dw Let_def startsWith_def) (simp add: js_def)
qed

text \<open>
  Claim C6, as the code has it. \<^verbatim>\<open>parseProperties\<close> scans the leading lines that the
  property expression matches or that are blank; a blank line does not end the scan, the
  first line that is neither ends it. The properties are those of the matching lines
  scanned, in order. The body is all the text after the last matching line scanned, and
  the whole text when none matched: blank lines between the last property and the line
  that ended the scan stay in the body, blank lines before a property leave with it. A
  line \<^verbatim>\<open>key:: value\<close> whose key is made of letters, hyphens and underscores and whose
  value holds no line terminator matches, with the value stripped of leading space. A
  text whose first line neither matches nor is blank is all body.
\<close>

theorem C6_body_follows_the_last_property_line:
  "parseProperties t =
     (foldl prop_step [] (scanned (split_on NL t)),
      join_with [NL] (drop (body_start (split_on NL t)) (split_on NL t))) \<and>
   (key \<noteq> [] \<and> list_all key_char key \<and> list_all (\<lambda>c. \<not> is_line_terminator c) v \<longrightarrow>
      match_property (key @ js '':: '' @ v) = Some (key, dropWhile is_space v)) \<and>
   (match_property (hd (split_on NL t)) = None \<and> trim (hd (split_on NL t)) \<noteq> [] \<longrightarrow>
      parseProperties t = ([], t))"
proof (intro conjI impI)
  show "parseProperties t =
     (foldl prop_step [] (scanned (split_on NL t)),
      join_with [NL] (drop (body_start (split_on NL t)) (split_on NL t)))"
    by (rule parseProperties_closed)
next
  assume "key \<noteq> [] \<and> list_all key_char key \<and> list_all (\<lambda>c. \<not> is_line_terminator c) v"
  then show "match_property (key @ js '':: '' @ v) = Some (key, dropWhile is_space v)"
    by (simp add: match_property_letters)
next
  assume a: "match_property (hd (split_on NL t)) = None \<and> trim (hd (split_on NL t)) \<noteq> []"
  obtain l ls where sp: "split_on NL t = l # ls"
    by (cases "split_on NL t") auto
  with a have sc: "scanned (split_on NL t) = []"
    by (simp add: scanned_def)
  then have "body_start (split_on NL t) = 0"
    by (simp add: body_start_def)
  with sc show "parseProperties t = ([], t)"
    by (simp add: parseProperties_closed join_split_on)
qed

text \<open>
  The theorem at a text of two properties with blank lines around the second, a body
  line, and a line in the body that looks like a property: the body starts with the
  blank line after the second property.
\<close>

theorem C6_body_follows_the_last_property_line_witness:
  "parseProperties (js ''title:: T\<newline>\<newline>tags:: a\<newline>\<newline>body\<newline>x:: y'') =
     ([(js ''title'', js ''T''), (js ''tags'', js ''a'')], js ''\<newline>body\<newline>x:: y'') \<and>
   match_property (js ''tags'' @ js '':: '' @ js ''a'') = Some (js ''tags'', js ''a'') \<and>
   parseProperties (js ''body\<newline>x:: y'') = ([], js ''body\<newline>x:: y'')"
proof -
  let ?t = "js ''title:: T\<newline>\<newline>tags:: a\<newline>\<newline>body\<newline>x:: y''"
  note inst = C6_body_follows_the_last_property_line
  have p: "foldl prop_step [] (scanned (split_on NL ?t)) = [(js ''title'', js ''T''), (js ''tags'', js ''a'')]"
    by code_simp
  have b: "join_with [NL] (drop (body_start (split_on NL ?t)) (split_on NL ?t)) = js ''\<newline>body\<newline>x:: y''"
    by code_simp
  have 1: "parseProperties ?t =
     ([(js ''title'', js ''T''), (js ''tags'', js ''a'')], js ''\<newline>body\<newline>x:: y'')"
    using inst [of ?t, THEN conjunct1] unfolding p b .
  have k: "js ''tags'' \<noteq> [] \<and> list_all key_char (js ''tags'') \<and>
      list_all (\<lambda>c. \<not> is_line_terminator c) (js ''a'')"
    by code_simp
  have d: "dropWhile is_space (js ''a'') = js ''a''"
    by code_simp
  have 2: "match_property (js ''tags'' @ js '':: '' @ js ''a'') = Some (js ''tags'', js ''a'')"
    using inst [of _ "js ''tags''" "js ''a''", THEN conjunct2, THEN conjunct1] k d by simp
  have h: "match_property (hd (split_on NL (js ''body\<newline>x:: y''))) = None \<and>
      trim (hd (split_on NL (js ''body\<newline>x:: y''))) \<noteq> []"
    by code_simp
  have 3: "parseProperties (js ''body\<newline>x:: y'') = ([], js ''body\<newline>x:: y'')"
    using inst [of "js ''body\<newline>x:: y''", THEN conjunct2, THEN conjunct2] h by blast
  from 1 2 3 show ?thesis by blast
qed

text \<open>
  Claim C6 as stated fails: the scan of \<^verbatim>\<open>a:: b\<close>, a blank line and \<^verbatim>\<open>hello\<close> ends at
  \<^verbatim>\<open>hello\<close>, and the body is not the text from that line on: it begins with the blank
  line before it.
\<close>

theorem C6_blank_line_stays_in_the_body:
  "parseProperties (js ''a:: b\<newline>\<newline>hello'') = ([(js ''a'', js ''b'')], js ''\<newline>hello'') \<and>
   snd (parseProperties (js ''a:: b\<newline>\<newline>hello'')) \<noteq> js ''hello''"
  by code_simp

section \<open>Properties of the search\<close>

lemma checkRegularFile_file:
  assumes "checkRegularFile cwd fs p = Inr ()"
  shows "\<exists>k body n. 0 \<notin> set p \<and> named fs (path_resolve cwd p) = Some (k, File body n) \<and> n \<le> 1"
proof -
  from assms obtain st where l: "lstat cwd fs p = Inr st"
    and st: "\<not> isSymbolicLink st" "isFile st" "nlink st \<le> 1"
    by (auto simp: checkRegularFile_def split: sum.splits if_splits)
  from l obtain k e where z: "0 \<notin> set p" and e: "named fs (path_resolve cwd p) = Some (k, e)"
    and s: "st = stats_of e"
    by (auto simp: lstat_def split: if_splits option.splits)
  from st s obtain body n where "e = File body n" "n \<le> 1"
    by (cases e) auto
  with z e show ?thesis by blast
qed

lemma checkRegularFile_readable:
  "checkRegularFile cwd fs p = Inr () \<Longrightarrow> \<exists>body. readFile cwd fs p = Inr body"
  using checkRegularFile_file readFile_of_named by blast

lemma passes_tags_code:
  "(case tagFilter of None \<Rightarrow> False | Some ts \<Rightarrow> length ts > 0 \<and> \<not> list_ex (\<lambda>tag. tag \<in> set (tags pg)) ts)
     = (\<not> passes_tags tagFilter pg)"
  by (auto simp: passes_tags_def list_ex_iff split: option.splits)

lemma search_loop_closed:
  "search_loop lc cwd svc fs q tf pages acc =
     Inr (acc @ List.map_filter (hit lc cwd svc fs q tf) pages)"
proof (induction pages arbitrary: acc)
  case Nil
  then show ?case by (simp add:)
next
  case (Cons pg pages)
  let ?p = "path_join (graphPath svc) (path pg)"
  show ?case
  proof (cases "passes_tags tf pg")
    case False
    then show ?thesis
      by (simp add: passes_tags_code Cons.IH hit_def)
  next
    case pt: True
    show ?thesis
    proof (cases "checkRegularFile cwd fs ?p")
      case (Inl e)
      with pt show ?thesis
        by (simp add: passes_tags_code Cons.IH hit_def)
    next
      case (Inr u)
      then obtain body where r: "readFile cwd fs ?p = Inr body"
        using checkRegularFile_readable [of cwd fs ?p] by (cases u) auto
      from pt Inr r show ?thesis
        by (simp add: passes_tags_code Cons.IH hit_def Let_def)
    qed
  qed
qed

lemma slice_context:
  assumes "i < length lines"
  shows "join_with [NL] (slice lines (nat (max 0 (int i - 1))) (i + 2)) = context_of lines i"
proof (cases i)
  case 0
  with assms show ?thesis
    by (cases lines; cases "tl lines") (auto simp: slice_def context_of_def)
next
  case (Suc j)
  have a: "nat (max 0 (int i - 1)) = j" using Suc by simp
  have d: "drop j lines = lines ! j # drop (Suc j) lines"
    using assms Suc by (simp add: Cons_nth_drop_Suc)
  have d2: "drop (Suc j) lines = lines ! i # drop (Suc i) lines"
    using assms Suc by (simp add: Cons_nth_drop_Suc)
  have t: "take 3 (drop j lines) =
      lines ! j # lines ! i # (if i + 1 < length lines then [lines ! (i + 1)] else [])"
  proof (cases "i + 1 < length lines")
    case True
    then have "drop (Suc i) lines = lines ! (i + 1) # drop (Suc (Suc i)) lines"
      by (simp add: Cons_nth_drop_Suc)
    with d d2 True show ?thesis by (simp add: numeral_3_eq_3)
  next
    case False
    then have "drop (Suc i) lines = []" by simp
    with d d2 False show ?thesis by (simp add: numeral_3_eq_3)
  qed
  have "i + 2 - j = 3" using Suc by simp
  then show ?thesis
    using Suc by (simp add: slice_def a t context_of_def)
qed

lemma match_loop_closed:
  "i + length rest = length lines \<Longrightarrow> rest = drop i lines \<Longrightarrow>
   match_loop lc lines q rest i ms =
     ms @ map (match_at lines) (filter (\<lambda>j. includes_js (lc (lines ! j)) q) [i..<length lines])"
proof (induction rest arbitrary: i ms)
  case Nil
  then show ?case by simp
next
  case (Cons l rest)
  from Cons.prems(2) have "drop i lines \<noteq> []" by (metis list.distinct(1))
  then have i: "i < length lines" by simp
  from Cons.prems have l: "l = lines ! i"
    by (metis nth_via_drop)
  from Cons.prems have rest: "rest = drop (Suc i) lines"
    by (metis drop_Suc tl_drop list.sel(3))
  have up: "[i..<length lines] = i # [Suc i..<length lines]"
    using i by (simp add: upt_conv_Cons)
  have "match_loop lc lines q rest (i + 1) ms' =
      ms' @ map (match_at lines) (filter (\<lambda>j. includes_js (lc (lines ! j)) q) [Suc i..<length lines])" for ms'
    using Cons.IH [of "i + 1" ms'] Cons.prems rest by simp
  then show ?case
    using l up slice_context [OF i] by (simp add: match_at_def)
qed

lemma line_matches_closed:
  "line_matches lc lines q =
     map (match_at lines) (filter (\<lambda>j. includes_js (lc (lines ! j)) q) [0..<length lines])"
  unfolding line_matches_def using match_loop_closed [of 0 lines lines lc q "[]"] by simp

lemma line_matches_empty_iff:
  "line_matches lc lines q \<noteq> [] \<longleftrightarrow> (\<exists>l\<in>set lines. includes_js (lc l) q)"
proof -
  have "(\<exists>j<length lines. includes_js (lc (lines ! j)) q) \<longleftrightarrow> (\<exists>l\<in>set lines. includes_js (lc l) q)"
    by (metis in_set_conv_nth)
  then show ?thesis
    by (auto simp: line_matches_closed filter_empty_conv)
qed

lemma mem_map_filter: "r \<in> set (List.map_filter f xs) \<longleftrightarrow> (\<exists>x\<in>set xs. f x = Some r)"
  by (induction xs) (auto split: option.splits)

lemma hit_Some_iff:
  "hit lc cwd svc fs q tf pg = Some r \<longleftrightarrow>
     passes_tags tf pg \<and>
     checkRegularFile cwd fs (path_join (graphPath svc) (path pg)) = Inr () \<and>
     (\<exists>body. readFile cwd fs (path_join (graphPath svc) (path pg)) = Inr body \<and>
        (includes_js (lc (name pg)) q \<or> (\<exists>l\<in>set (split_on NL body). includes_js (lc l) q)) \<and>
        r = \<lparr>page = pg, matches = line_matches lc (split_on NL body) q\<rparr>)"
proof (cases "checkRegularFile cwd fs (path_join (graphPath svc) (path pg))")
  case (Inl e)
  then show ?thesis by (simp add: hit_def)
next
  case (Inr u)
  then obtain body where "readFile cwd fs (path_join (graphPath svc) (path pg)) = Inr body"
    using checkRegularFile_readable [of cwd fs "path_join (graphPath svc) (path pg)"] by (cases u) auto
  with Inr show ?thesis
    by (auto simp: hit_def line_matches_empty_iff)
qed

text \<open>
  Claim C8, as the code has it. A search with a query of at most 1000 characters
  returns a result list. A listed document is in it if and only if it passes the tag
  filter, its file passes the check for a regular file with a single hard link, and its
  name contains the query or one of its lines does, both compared in lower case; a
  document that fails the filter or the check is skipped. Every result is a listed
  document, and its matches are, for the lines of its file that contain the query, in
  order: the line number counted from 1, the text of the line, and the context of the
  line before, the line and the line after, as far as they exist.
\<close>

theorem C8_search_finds_safe_documents_that_match:
  assumes "length query \<le> 1000"
  shows "\<exists>results. searchPages lc cwd svc fs query tf folder = Inr results \<and>
     (\<forall>pg\<in>set (listPages cwd svc fs folder).
        (\<exists>r\<in>set results. page r = pg) \<longleftrightarrow>
        passes_tags tf pg \<and>
        checkRegularFile cwd fs (path_join (graphPath svc) (path pg)) = Inr () \<and>
        (\<exists>body. readFile cwd fs (path_join (graphPath svc) (path pg)) = Inr body \<and>
           (includes_js (lc (name pg)) (lc query) \<or>
            (\<exists>l\<in>set (split_on NL body). includes_js (lc l) (lc query))))) \<and>
     (\<forall>r\<in>set results.
        page r \<in> set (listPages cwd svc fs folder) \<and>
        (\<exists>body. readFile cwd fs (path_join (graphPath svc) (path (page r))) = Inr body \<and>
           matches r =
             map (match_at (split_on NL body))
               (filter (\<lambda>i. includes_js (lc (split_on NL body ! i)) (lc query))
                  [0..<length (split_on NL body)])))"
proof -
  let ?pages = "listPages cwd svc fs folder"
  let ?results = "List.map_filter (hit lc cwd svc fs (lc query) tf) ?pages"
  have run: "searchPages lc cwd svc fs query tf folder = Inr ?results"
    using assms by (simp add: searchPages_def search_loop_closed)
  have mem: "r \<in> set ?results \<longleftrightarrow> (\<exists>pg\<in>set ?pages. hit lc cwd svc fs (lc query) tf pg = Some r)" for r
    by (rule mem_map_filter)
  have a: "(\<exists>r\<in>set ?results. page r = pg) \<longleftrightarrow>
        passes_tags tf pg \<and>
        checkRegularFile cwd fs (path_join (graphPath svc) (path pg)) = Inr () \<and>
        (\<exists>body. readFile cwd fs (path_join (graphPath svc) (path pg)) = Inr body \<and>
           (includes_js (lc (name pg)) (lc query) \<or>
            (\<exists>l\<in>set (split_on NL body). includes_js (lc l) (lc query))))"
    if pg: "pg \<in> set ?pages" for pg
  proof
    assume "\<exists>r\<in>set ?results. page r = pg"
    then obtain r pg' where "pg' \<in> set ?pages" "hit lc cwd svc fs (lc query) tf pg' = Some r" "page r = pg"
      using mem by blast
    then show "passes_tags tf pg \<and>
        checkRegularFile cwd fs (path_join (graphPath svc) (path pg)) = Inr () \<and>
        (\<exists>body. readFile cwd fs (path_join (graphPath svc) (path pg)) = Inr body \<and>
           (includes_js (lc (name pg)) (lc query) \<or>
            (\<exists>l\<in>set (split_on NL body). includes_js (lc l) (lc query))))"
      by (auto simp: hit_Some_iff)
  next
    assume "passes_tags tf pg \<and>
        checkRegularFile cwd fs (path_join (graphPath svc) (path pg)) = Inr () \<and>
        (\<exists>body. readFile cwd fs (path_join (graphPath svc) (path pg)) = Inr body \<and>
           (includes_js (lc (name pg)) (lc query) \<or>
            (\<exists>l\<in>set (split_on NL body). includes_js (lc l) (lc query))))"
    then obtain body where "hit lc cwd svc fs (lc query) tf pg =
        Some \<lparr>page = pg, matches = line_matches lc (split_on NL body) (lc query)\<rparr>"
      unfolding hit_Some_iff by blast
    with pg have "\<lparr>page = pg, matches = line_matches lc (split_on NL body) (lc query)\<rparr> \<in> set ?results"
      using mem by blast
    then show "\<exists>r\<in>set ?results. page r = pg"
      by force
  qed
  have b: "page r \<in> set ?pages \<and>
        (\<exists>body. readFile cwd fs (path_join (graphPath svc) (path (page r))) = Inr body \<and>
           matches r =
             map (match_at (split_on NL body))
               (filter (\<lambda>i. includes_js (lc (split_on NL body ! i)) (lc query))
                  [0..<length (split_on NL body)]))"
    if "r \<in> set ?results" for r
  proof -
    from that obtain pg where "pg \<in> set ?pages" "hit lc cwd svc fs (lc query) tf pg = Some r"
      using mem by blast
    then show ?thesis
      by (auto simp: hit_Some_iff line_matches_closed)
  qed
  from run a b show ?thesis by blast
qed

text \<open>
  The theorem at the scenario of the specification: the fifth line of the page is
  \<^verbatim>\<open>- TODO buy milk\<close>, the query is \<^verbatim>\<open>todo\<close>. The search returns the page with one match:
  line 5, the text of the line, and the lines 4 to 6 as context.
\<close>

theorem C8_search_finds_safe_documents_that_match_witness:
  "searchPages ascii_lower (js ''/srv'') (GraphService (js ''/srv/graph''))
     [(js ''/srv/graph'', Dir), (js ''/srv/graph/pages'', Dir),
      (js ''/srv/graph/pages/List.md'',
       File (js ''l1\<newline>l2\<newline>l3\<newline>l4\<newline>- TODO buy milk\<newline>l6\<newline>l7'') 1)]
     (js ''todo'') None None =
   Inr [\<lparr>page = \<lparr>path = js ''pages/List.md'', name = js ''List'', tags = [], links = [],
                   backlinks = [], isJournal = False\<rparr>,
          matches = [\<lparr>line = 5, match_content = js ''- TODO buy milk'',
                      match_context = js ''l4\<newline>- TODO buy milk\<newline>l6''\<rparr>]\<rparr>] \<and>
   \<lparr>path = js ''pages/List.md'', name = js ''List'', tags = [], links = [], backlinks = [],
      isJournal = False\<rparr>
     \<in> set (listPages (js ''/srv'') (GraphService (js ''/srv/graph''))
         [(js ''/srv/graph'', Dir), (js ''/srv/graph/pages'', Dir),
          (js ''/srv/graph/pages/List.md'',
           File (js ''l1\<newline>l2\<newline>l3\<newline>l4\<newline>- TODO buy milk\<newline>l6\<newline>l7'') 1)] None)"
proof -
  let ?cwd = "js ''/srv''" and ?svc = "GraphService (js ''/srv/graph'')"
  let ?fs = "[(js ''/srv/graph'', Dir), (js ''/srv/graph/pages'', Dir),
      (js ''/srv/graph/pages/List.md'',
       File (js ''l1\<newline>l2\<newline>l3\<newline>l4\<newline>- TODO buy milk\<newline>l6\<newline>l7'') 1)]"
  let ?r = "\<lparr>page = \<lparr>path = js ''pages/List.md'', name = js ''List'', tags = [], links = [],
                   backlinks = [], isJournal = False\<rparr>,
          matches = [\<lparr>line = 5, match_content = js ''- TODO buy milk'',
                      match_context = js ''l4\<newline>- TODO buy milk\<newline>l6''\<rparr>]\<rparr>"
  have v: "searchPages ascii_lower ?cwd ?svc ?fs (js ''todo'') None None = Inr [?r]"
    by code_simp
  have len: "length (js ''todo'') \<le> 1000"
    by (simp add: js_def)
  from C8_search_finds_safe_documents_that_match [OF len, of ascii_lower ?cwd ?svc ?fs None None]
  obtain results where res: "searchPages ascii_lower ?cwd ?svc ?fs (js ''todo'') None None = Inr results"
    and listed: "\<forall>r\<in>set results. page r \<in> set (listPages ?cwd ?svc ?fs None)"
    by blast
  from res v have "results = [?r]" by simp
  with listed have "page ?r \<in> set (listPages ?cwd ?svc ?fs None)" by simp
  then have "\<lparr>path = js ''pages/List.md'', name = js ''List'', tags = [], links = [], backlinks = [],
      isJournal = False\<rparr> \<in> set (listPages ?cwd ?svc ?fs None)"
    by simp
  with v show ?thesis by blast
qed

text \<open>
  Claim C8 as stated fails: the page \<^verbatim>\<open>todo\<close> is indexed and its name contains the query
  \<^verbatim>\<open>todo\<close>, and it is not in the result set. Its file has two hard links, and the search
  skips a file that fails \<^verbatim>\<open>checkRegularFile\<close>.
\<close>

theorem C8_hard_linked_document_is_skipped:
  "listPages (js ''/srv'') (GraphService (js ''/srv/graph''))
     [(js ''/srv/graph'', Dir), (js ''/srv/graph/pages'', Dir),
      (js ''/srv/graph/pages/todo.md'', File (js ''buy milk'') 2)] None =
     [\<lparr>path = js ''pages/todo.md'', name = js ''todo'', tags = [], links = [], backlinks = [],
         isJournal = False\<rparr>] \<and>
   includes_js (ascii_lower (js ''todo'')) (ascii_lower (js ''todo'')) \<and>
   searchPages ascii_lower (js ''/srv'') (GraphService (js ''/srv/graph''))
     [(js ''/srv/graph'', Dir), (js ''/srv/graph/pages'', Dir),
      (js ''/srv/graph/pages/todo.md'', File (js ''buy milk'') 2)]
     (js ''todo'') None None = Inr []"
  by code_simp

section \<open>Properties of the document store\<close>

lemma readable_not_link:
  assumes "checkSymlink cwd fs fp = Inr ()" and "readFile cwd fs fp = Inr e"
  shows "0 \<notin> set fp \<and> (\<exists>k n. named fs (path_resolve cwd fp) = Some (k, File e n))"
proof -
  from assms(2) have z: "0 \<notin> set fp"
    by (auto simp: readFile_def split: if_splits)
  show ?thesis
  proof (cases "named fs (path_resolve cwd fp)")
    case None
    with assms(2) z show ?thesis by (simp add: readFile_def follow_40)
  next
    case (Some r)
    obtain k en where r: "r = (k, en)" by (cases r)
    show ?thesis
    proof (cases en)
      case (File e' n)
      with Some r assms(2) z show ?thesis by (simp add: readFile_def follow_40)
    next
      case Dir
      with Some r assms(2) z show ?thesis by (simp add: readFile_def follow_40)
    next
      case (Symlink t)
      with Some r assms(1) z show ?thesis by (simp add: checkSymlink_def lstat_def)
    next
      case (Hardlink x)
      with Some r named_no_name [of fs "path_resolve cwd fp" k en x] show ?thesis by simp
    qed
  qed
qed

lemma writeFile_existing:
  assumes "0 \<notin> set fp" and "named fs (path_resolve cwd fp) = Some (k, File e n)"
  shows "writeFile cwd fs fp t = Inr (AList.update k (File (toWellFormed t) n) fs)"
  using assms by (simp add: writeFile_def follow_named_file)

text \<open>The text written through a name of a file is the text read through that name.\<close>

lemma named_after_update:
  assumes "named fs key = Some (k, File e n)"
  shows "named (AList.update k (File t n) fs) key = Some (k, File t n)"
proof (cases "k = key")
  case True
  then show ?thesis by (simp add: named_def update_conv')
next
  case False
  with assms have "map_of fs key = Some (Hardlink k)"
    using named_further by blast
  with False show ?thesis by (simp add: named_def update_conv')
qed

lemma readFile_after_update:
  assumes "0 \<notin> set fp" and "named fs (path_resolve cwd fp) = Some (k, File e n)"
  shows "readFile cwd (AList.update k (File t n) fs) fp = Inr t"
  using assms(1) named_after_update [OF assms(2), of t] by (rule readFile_of_named)

text \<open>What is written through one name of a file is read through every name of it.\<close>

lemma write_shows_under_every_name:
  assumes "0 \<notin> set p" and "0 \<notin> set q"
    and "named fs (path_resolve cwd p) = Some (k, File e n)"
    and "named fs (path_resolve cwd q) = Some (k, File e n)"
  shows "\<exists>fs'. writeFile cwd fs p t = Inr fs' \<and> readFile cwd fs' p = Inr (toWellFormed t) \<and>
    readFile cwd fs' q = Inr (toWellFormed t)"
  using writeFile_existing [OF assms(1) assms(3), of t]
    readFile_after_update [OF assms(1) assms(3), of "toWellFormed t"]
    readFile_after_update [OF assms(2) assms(4), of "toWellFormed t"]
  by simp

lemma appendToPage_too_large:
  assumes r: "resolvePath cwd svc fs p = Inr fp"
    and s: "checkSymlink cwd fs fp = Inr ()"
    and e: "readFile cwd fs fp = Inr e"
    and c: "byteLength c \<le> MAX_CONTENT_SIZE"
    and big: "byteLength (trimEnd e @ [NL] @ c) > MAX_CONTENT_SIZE"
  shows "appendToPage cwd svc fs p c =
     (Inl (ContentTooLarge (byteLength (trimEnd e @ [NL] @ c))), fs)"
proof -
  have v1: "validateContentSize c = Inr ()"
    using c by (simp add: validateContentSize_def)
  have v2: "validateContentSize (trimEnd e @ [NL] @ c) =
      Inl (ContentTooLarge (byteLength (trimEnd e @ [NL] @ c)))"
    using big by (simp add: validateContentSize_def)
  show ?thesis
    unfolding appendToPage_def by (simp only: v1 r s e v2 sum.case Let_def)
qed

lemma appendToPage_written:
  assumes r: "resolvePath cwd svc fs p = Inr fp"
    and s: "checkSymlink cwd fs fp = Inr ()"
    and e: "readFile cwd fs fp = Inr e"
    and c: "byteLength c \<le> MAX_CONTENT_SIZE"
    and fits: "byteLength (trimEnd e @ [NL] @ c) \<le> MAX_CONTENT_SIZE"
  shows "\<exists>k n. named fs (path_resolve cwd fp) = Some (k, File e n) \<and>
     appendToPage cwd svc fs p c =
       (readPage cwd svc (AList.update k (File (toWellFormed (trimEnd e @ [NL] @ c)) n) fs) p,
        AList.update k (File (toWellFormed (trimEnd e @ [NL] @ c)) n) fs)"
proof -
  from readable_not_link [OF s e] obtain k n where z: "0 \<notin> set fp"
    and m: "named fs (path_resolve cwd fp) = Some (k, File e n)" by blast
  have v1: "validateContentSize c = Inr ()"
    using c by (simp add: validateContentSize_def)
  have v2: "validateContentSize (trimEnd e @ [NL] @ c) = Inr ()"
    using fits by (simp add: validateContentSize_def)
  note w = writeFile_existing [OF z m, of "trimEnd e @ [NL] @ c"]
  have "appendToPage cwd svc fs p c =
       (readPage cwd svc (AList.update k (File (toWellFormed (trimEnd e @ [NL] @ c)) n) fs) p,
        AList.update k (File (toWellFormed (trimEnd e @ [NL] @ c)) n) fs)"
    unfolding appendToPage_def by (simp only: v1 r s e v2 w sum.case Let_def)
  with m show ?thesis by blast
qed

text \<open>
  Claim C7, as the code has it. \<^verbatim>\<open>appendToPage\<close> refuses a text of more than 10 MiB before
  it touches the store. For an existing document, reached by \<^verbatim>\<open>resolvePath\<close>, not a link,
  with the text \<open>e\<close>, it joins \<open>e\<close> without its trailing white space, one newline and the
  appended text, and checks the size of the result against the 10 MiB cap: beyond the cap
  it fails with \<open>ContentTooLarge\<close> and leaves the store as it was; otherwise the file
  holds the joined text (as UTF-8 gives it back), and the page read from the new store
  is returned.
\<close>

theorem C7_append_joins_trimmed_text_and_new_text:
  "(byteLength c > MAX_CONTENT_SIZE \<longrightarrow>
      appendToPage cwd svc fs p c = (Inl (ContentTooLarge (byteLength c)), fs)) \<and>
   (byteLength c \<le> MAX_CONTENT_SIZE \<and>
    resolvePath cwd svc fs p = Inr fp \<and> checkSymlink cwd fs fp = Inr () \<and>
    readFile cwd fs fp = Inr e \<longrightarrow>
      (byteLength (trimEnd e @ [NL] @ c) > MAX_CONTENT_SIZE \<longrightarrow>
         appendToPage cwd svc fs p c =
           (Inl (ContentTooLarge (byteLength (trimEnd e @ [NL] @ c))), fs)) \<and>
      (byteLength (trimEnd e @ [NL] @ c) \<le> MAX_CONTENT_SIZE \<longrightarrow>
         readFile cwd (snd (appendToPage cwd svc fs p c)) fp =
           Inr (toWellFormed (trimEnd e @ [NL] @ c)) \<and>
         fst (appendToPage cwd svc fs p c) =
           readPage cwd svc (snd (appendToPage cwd svc fs p c)) p))"
proof (intro conjI impI)
  assume "byteLength c > MAX_CONTENT_SIZE"
  then show "appendToPage cwd svc fs p c = (Inl (ContentTooLarge (byteLength c)), fs)"
    by (simp add: appendToPage_def validateContentSize_def)
next
  assume h: "byteLength c \<le> MAX_CONTENT_SIZE \<and>
    resolvePath cwd svc fs p = Inr fp \<and> checkSymlink cwd fs fp = Inr () \<and>
    readFile cwd fs fp = Inr e"
    and big: "byteLength (trimEnd e @ [NL] @ c) > MAX_CONTENT_SIZE"
  then show "appendToPage cwd svc fs p c =
      (Inl (ContentTooLarge (byteLength (trimEnd e @ [NL] @ c))), fs)"
    using appendToPage_too_large [of cwd svc fs p fp e c] by blast
next
  assume h: "byteLength c \<le> MAX_CONTENT_SIZE \<and>
    resolvePath cwd svc fs p = Inr fp \<and> checkSymlink cwd fs fp = Inr () \<and>
    readFile cwd fs fp = Inr e"
    and fits: "byteLength (trimEnd e @ [NL] @ c) \<le> MAX_CONTENT_SIZE"
  from h have z: "0 \<notin> set fp"
    using readable_not_link by blast
  from h fits obtain k n where m: "named fs (path_resolve cwd fp) = Some (k, File e n)"
    and w: "appendToPage cwd svc fs p c =
       (readPage cwd svc (AList.update k (File (toWellFormed (trimEnd e @ [NL] @ c)) n) fs) p,
        AList.update k (File (toWellFormed (trimEnd e @ [NL] @ c)) n) fs)"
    using appendToPage_written [of cwd svc fs p fp e c] by blast
  show "readFile cwd (snd (appendToPage cwd svc fs p c)) fp =
      Inr (toWellFormed (trimEnd e @ [NL] @ c))"
    unfolding w snd_conv by (rule readFile_after_update [OF z m])
  show "fst (appendToPage cwd svc fs p c) =
      readPage cwd svc (snd (appendToPage cwd svc fs p c)) p"
    unfolding w by simp
qed

lemma byteLength_big_text: "byteLength (replicate n 0x61 @ rest) = int n + byteLength rest"
proof (induction n)
  case 0
  then show ?case by simp
next
  case (Suc n)
  have a: "\<not> is_high 0x61" "unit_bytes 0x61 = 1"
    by (simp_all add: is_high_def unit_bytes_def)
  show ?case
  proof (cases "replicate n 0x61 @ rest")
    case Nil
    then show ?thesis using a by simp
  next
    case (Cons d ds)
    with Suc a show ?thesis by simp
  qed
qed

lemma trimEnd_big_text: "trimEnd (replicate n 0x61) = replicate n 0x61"
proof -
  have "\<not> is_space 0x61" by (simp add: is_space_def)
  then have "dropWhile is_space (replicate n 0x61) = replicate n 0x61"
    by (cases n) simp_all
  then show ?thesis by (simp add: trimEnd_def)
qed

text \<open>
  The theorem at a page whose text ends in a space and a newline: the appended text
  follows the trimmed text after one newline. At a page of exactly 10 MiB the joined
  text is two bytes over the cap, and the call fails and changes nothing.
\<close>

theorem C7_append_joins_trimmed_text_and_new_text_witness:
  "readFile (js ''/srv'')
     (snd (appendToPage (js ''/srv'') (GraphService (js ''/srv/graph''))
        [(js ''/srv/graph'', Dir), (js ''/srv/graph/pages'', Dir),
         (js ''/srv/graph/pages/A.md'', File (js ''x \<newline>'') 1)] (js ''A'') (js ''y'')))
     (js ''/srv/graph/pages/A.md'') = Inr (js ''x\<newline>y'') \<and>
   appendToPage (js ''/srv'') (GraphService (js ''/srv/graph''))
     [(js ''/srv/graph'', Dir), (js ''/srv/graph/pages'', Dir),
      (js ''/srv/graph/pages/A.md'', File big_text 1)] (js ''A'') (js ''y'') =
     (Inl (ContentTooLarge 10485762),
      [(js ''/srv/graph'', Dir), (js ''/srv/graph/pages'', Dir),
       (js ''/srv/graph/pages/A.md'', File big_text 1)])"
proof -
  let ?cwd = "js ''/srv''" and ?svc = "GraphService (js ''/srv/graph'')"
  let ?fp = "js ''/srv/graph/pages/A.md''"
  let ?fs = "\<lambda>t. [(js ''/srv/graph'', Dir), (js ''/srv/graph/pages'', Dir), (?fp, File t 1)]"
  note inst = C7_append_joins_trimmed_text_and_new_text
  have small: "byteLength (js ''y'') \<le> MAX_CONTENT_SIZE"
    by (simp add: js_def MAX_CONTENT_SIZE_def unit_bytes_def)
  have key: "path_resolve ?cwd ?fp = ?fp"
    by (simp add: path_eval)
  have cand: "path_join (pagesPath ?svc) (js ''A'' @ js ''.md'') = ?fp"
    by (simp add: GraphService_def path_eval)
  have z: "0 \<notin> set ?fp" "SLASH \<notin> set (js ''A'')"
    by (simp_all add: js_def SLASH_def)
  have v: "validatePath ?cwd ?svc ?fp = Inr ?fp"
    by (simp add: validatePath_def GraphService_def path_eval)
  have r: "resolvePath ?cwd ?svc (?fs t) (js ''A'') = Inr ?fp" for t
    using z by (simp add: resolvePath_def try_candidate_def cand v stat_def key follow_40 named_def; simp add: js_def)
  have s: "checkSymlink ?cwd (?fs t) ?fp = Inr ()" for t
    using z by (simp add: checkSymlink_def lstat_def key named_def; simp add: js_def)
  have e: "readFile ?cwd (?fs t) ?fp = Inr t" for t
    using z by (simp add: readFile_def key follow_40 named_def; simp add: js_def)
  have j: "trimEnd (js ''x \<newline>'') @ [NL] @ js ''y'' = js ''x\<newline>y''"
    by code_simp
  have wf: "toWellFormed (js ''x\<newline>y'') = js ''x\<newline>y''"
    by code_simp
  have fits: "byteLength (js ''x\<newline>y'') \<le> MAX_CONTENT_SIZE"
    by code_simp
  have 1: "readFile ?cwd (snd (appendToPage ?cwd ?svc (?fs (js ''x \<newline>'')) (js ''A'') (js ''y''))) ?fp =
      Inr (js ''x\<newline>y'')"
    using inst [of "js ''y''" ?cwd ?svc "?fs (js ''x \<newline>'')" "js ''A''" ?fp "js ''x \<newline>''"]
      small r s e fits
    unfolding j wf by blast
  have big: "byteLength (trimEnd big_text @ [NL] @ js ''y'') = 10485762"
    unfolding big_text_def trimEnd_big_text byteLength_big_text
    by (simp add: js_def NL_def unit_bytes_def is_high_def)
  then have over: "byteLength (trimEnd big_text @ [NL] @ js ''y'') > MAX_CONTENT_SIZE"
    by (simp add: MAX_CONTENT_SIZE_def)
  have 2: "appendToPage ?cwd ?svc (?fs big_text) (js ''A'') (js ''y'') =
      (Inl (ContentTooLarge 10485762), ?fs big_text)"
    using inst [of "js ''y''" ?cwd ?svc "?fs big_text" "js ''A''" ?fp big_text]
      small r s e over
    unfolding big by blast
  from 1 2 show ?thesis by blast
qed

text \<open>
  Claim C7 as stated fails: the page holds \<^verbatim>\<open>x\<close> and a newline; after \<^verbatim>\<open>y\<close> is appended it
  holds \<^verbatim>\<open>x\<close>, one newline and \<^verbatim>\<open>y\<close>, which is not the old text followed by a newline
  and \<^verbatim>\<open>y\<close>. The old text loses its trailing white space first.
\<close>

theorem C7_append_trims_the_old_text:
  "snd (appendToPage (js ''/srv'') (GraphService (js ''/srv/graph''))
     [(js ''/srv/graph'', Dir), (js ''/srv/graph/pages'', Dir),
      (js ''/srv/graph/pages/A.md'', File (js ''x\<newline>'') 1)] (js ''A'') (js ''y'')) =
     [(js ''/srv/graph'', Dir), (js ''/srv/graph/pages'', Dir),
      (js ''/srv/graph/pages/A.md'', File (js ''x\<newline>y'') 1)] \<and>
   js ''x\<newline>y'' \<noteq> js ''x\<newline>'' @ [NL] @ js ''y''"
  by code_simp

section \<open>Properties of page creation\<close>

lemma split_on_absent: "c \<notin> set x \<Longrightarrow> split_on c x = [x]"
  by (induction x) auto

lemma split_on_join:
  "segs \<noteq> [] \<Longrightarrow> \<forall>s\<in>set segs. c \<notin> set s \<Longrightarrow> split_on c (join_with [c] segs) = segs"
proof (induction "[c]" segs rule: join_with.induct)
  case 1
  then show ?case by simp
next
  case (2 x)
  then show ?case by (simp add: split_on_absent)
next
  case (3 x y ys)
  then have "split_on c (join_with [c] (y # ys)) = y # ys" by simp
  then show ?case
    using 3 by (simp add: split_on_append split_on_absent)
qed

text \<open>Without leave to rise above the start, normalisation keeps no dot segment.\<close>

lemma normSegs_no_dots:
  "\<forall>s\<in>set acc. s \<noteq> [] \<and> s \<noteq> [DOT] \<and> s \<noteq> [DOT, DOT] \<Longrightarrow>
   \<forall>s\<in>set (normSegs False acc ss). s \<noteq> [] \<and> s \<noteq> [DOT] \<and> s \<noteq> [DOT, DOT]"
proof (induction ss arbitrary: acc)
  case Nil
  then show ?case by simp
next
  case (Cons s ss)
  have step: "\<forall>s\<in>set (normSegs False acc' ss). s \<noteq> [] \<and> s \<noteq> [DOT] \<and> s \<noteq> [DOT, DOT]"
    if "\<forall>s\<in>set acc'. s \<noteq> [] \<and> s \<noteq> [DOT] \<and> s \<noteq> [DOT, DOT]" for acc'
    using Cons.IH [OF that] .
  show ?case
  proof (cases "s = [] \<or> s = [DOT]")
    case True
    then have eq: "normSegs False acc (s # ss) = normSegs False acc ss" by auto
    show ?thesis unfolding eq by (rule step [OF Cons.prems])
  next
    case plain: False
    show ?thesis
    proof (cases "s = [DOT, DOT]")
      case False
      with plain have eq: "normSegs False acc (s # ss) = normSegs False (s # acc) ss" by simp
      have cl: "\<forall>t\<in>set (s # acc). t \<noteq> [] \<and> t \<noteq> [DOT] \<and> t \<noteq> [DOT, DOT]"
        using plain False Cons.prems by auto
      show ?thesis unfolding eq by (rule step [OF cl])
    next
      case up: True
      show ?thesis
      proof (cases acc)
        case Nil
        with up have eq: "normSegs False acc (s # ss) = normSegs False [] ss" by simp
        show ?thesis unfolding eq by (rule step) simp
      next
        case (Cons t ts)
        with up Cons.prems have eq: "normSegs False acc (s # ss) = normSegs False ts ss" by simp
        have cl: "\<forall>u\<in>set ts. u \<noteq> [] \<and> u \<noteq> [DOT] \<and> u \<noteq> [DOT, DOT]"
          using Cons.prems Cons by auto
        show ?thesis unfolding eq by (rule step [OF cl])
      qed
    qed
  qed
qed

text \<open>Segments that are empty or no dot segment pass normalisation, the empty ones dropped.\<close>

lemma normSegs_plain:
  "\<forall>s\<in>set ss. s \<noteq> [DOT] \<and> s \<noteq> [DOT, DOT] \<Longrightarrow>
   normSegs a acc ss = rev acc @ filter (\<lambda>s. s \<noteq> []) ss"
  by (induction ss arbitrary: acc) auto

lemma path_resolve_absolute:
  assumes "isAbsolute cwd"
  shows "\<exists>segs. path_resolve cwd p = SLASH # join_with [SLASH] segs \<and>
     (\<forall>s\<in>set segs. s \<noteq> [] \<and> s \<noteq> [DOT] \<and> s \<noteq> [DOT, DOT] \<and> SLASH \<notin> set s)"
proof -
  let ?r1 = "if isAbsolute p \<or> cwd = [] then (if p = [] then [] else p @ [SLASH])
             else cwd @ [SLASH] @ (if p = [] then [] else p @ [SLASH])"
  let ?segs = "normSegs False [] (split_on SLASH ?r1)"
  have eq: "path_resolve cwd p = SLASH # join_with [SLASH] ?segs"
    using assms by (simp add: path_resolve_def Let_def normalizeString_def)
  have 1: "\<forall>s\<in>set ?segs. s \<noteq> [] \<and> s \<noteq> [DOT] \<and> s \<noteq> [DOT, DOT]"
    by (rule normSegs_no_dots) simp
  have 2: "\<forall>s\<in>set ?segs. s \<noteq> [] \<and> SLASH \<notin> set s"
    by (rule normSegs_clean) (auto dest: split_on_no_sep)
  from eq 1 2 show ?thesis by blast
qed

lemma resolve_of_clean:
  assumes "\<forall>s\<in>set segs. s \<noteq> [] \<and> s \<noteq> [DOT] \<and> s \<noteq> [DOT, DOT] \<and> SLASH \<notin> set s"
  shows "path_resolve cwd (SLASH # join_with [SLASH] segs) = SLASH # join_with [SLASH] segs"
proof -
  let ?q = "SLASH # join_with [SLASH] segs"
  have sp: "filter (\<lambda>s. s \<noteq> []) (split_on SLASH (?q @ [SLASH])) = segs \<and>
      (\<forall>s\<in>set (split_on SLASH (?q @ [SLASH])). s \<noteq> [DOT] \<and> s \<noteq> [DOT, DOT])"
  proof (cases "segs = []")
    case True
    then show ?thesis by simp
  next
    case False
    have "split_on SLASH (join_with [SLASH] segs @ [SLASH]) = split_on SLASH (join_with [SLASH] segs) @ [[]]"
      using split_on_append [of SLASH "join_with [SLASH] segs" "[]"] by simp
    also have "split_on SLASH (join_with [SLASH] segs) = segs"
      using False assms by (intro split_on_join) auto
    finally have "split_on SLASH (?q @ [SLASH]) = [] # segs @ [[]]"
      by simp
    with assms show ?thesis by (auto simp: filter_id_conv)
  qed
  have "normSegs False [] (split_on SLASH (?q @ [SLASH])) = segs"
    using sp normSegs_plain [of "split_on SLASH (?q @ [SLASH])" False "[]"] by simp
  then show ?thesis
    by (simp add: path_resolve_def Let_def normalizeString_def isAbsolute_def)
qed

lemma path_resolve_idem:
  assumes "isAbsolute cwd"
  shows "path_resolve cwd (path_resolve cwd p) = path_resolve cwd p"
proof -
  from path_resolve_absolute [OF assms, of p] obtain segs where
    q: "path_resolve cwd p = SLASH # join_with [SLASH] segs"
    and cl: "\<forall>s\<in>set segs. s \<noteq> [] \<and> s \<noteq> [DOT] \<and> s \<noteq> [DOT, DOT] \<and> SLASH \<notin> set s"
    by blast
  show ?thesis unfolding q by (rule resolve_of_clean [OF cl])
qed

lemma includes_js_single: "includes_js s [c] \<longleftrightarrow> c \<in> set s"
  by (induction s) (auto simp: startsWith_def)

lemma validatePageName_ok:
  assumes "validatePageName nm = Inr ()"
  shows "SLASH \<notin> set nm \<and> 0 \<notin> set nm"
proof -
  from assms have "\<not> list_ex (\<lambda>pattern. includes_js nm pattern) dangerousPatterns"
    by (auto simp: validatePageName_def split: if_splits)
  then have "\<not> includes_js nm [SLASH] \<and> \<not> includes_js nm [0]"
    by (simp add: dangerousPatterns_def js_def SLASH_def)
  then show ?thesis by (simp add: includes_js_single)
qed

text \<open>A resolved path holds no NUL unless the working directory or the path did.\<close>

lemma set_split_on: "s \<in> set (split_on c xs) \<Longrightarrow> set s \<subseteq> set xs"
proof (induction xs arbitrary: s)
  case Nil
  then show ?case by simp
next
  case (Cons x xs)
  obtain y ys where sp: "split_on c xs = y # ys"
    by (cases "split_on c xs") auto
  have y: "set y \<subseteq> set xs" and ys: "\<forall>t\<in>set ys. set t \<subseteq> set xs"
    using Cons.IH sp by auto
  show ?case
  proof (cases "x = c")
    case True
    with Cons.prems sp y ys show ?thesis by auto
  next
    case False
    with Cons.prems sp have "s = x # y \<or> s \<in> set ys" by auto
    with y ys show ?thesis by auto
  qed
qed

lemma set_join_with: "set (join_with [c] segs) \<subseteq> insert c (\<Union> (set ` set segs))"
  by (induction "[c]" segs rule: join_with.induct) auto

lemma set_normSegs_False:
  "set (normSegs False acc ss) \<subseteq> set acc \<union> set ss"
proof (induction ss arbitrary: acc)
  case Nil
  then show ?case by simp
next
  case (Cons s ss)
  have "set (normSegs False acc (s # ss)) \<subseteq> set acc \<union> set (s # ss)"
  proof (cases acc)
    case Nil
    then show ?thesis using Cons.IH [of "[]"] Cons.IH [of "[s]"] by auto
  next
    case (Cons t ts)
    then show ?thesis
      using Cons.IH [of acc] Cons.IH [of ts] Cons.IH [of "s # acc"] by auto
  qed
  then show ?case .
qed

lemma no_nul_resolve:
  assumes "isAbsolute cwd" and "0 \<notin> set cwd" and "0 \<notin> set p"
  shows "0 \<notin> set (path_resolve cwd p)"
proof -
  let ?r1 = "if isAbsolute p \<or> cwd = [] then (if p = [] then [] else p @ [SLASH])
             else cwd @ [SLASH] @ (if p = [] then [] else p @ [SLASH])"
  let ?segs = "normSegs False [] (split_on SLASH ?r1)"
  have eq: "path_resolve cwd p = SLASH # join_with [SLASH] ?segs"
    using assms(1) by (simp add: path_resolve_def Let_def normalizeString_def)
  have r1: "0 \<notin> set ?r1" using assms by (auto simp: SLASH_def)
  have "\<forall>s\<in>set ?segs. 0 \<notin> set s"
  proof
    fix s assume "s \<in> set ?segs"
    then have "s \<in> set (split_on SLASH ?r1)"
      using set_normSegs_False [of "[]" "split_on SLASH ?r1"] by auto
    then have "set s \<subseteq> set ?r1" by (rule set_split_on)
    with r1 show "0 \<notin> set s" by blast
  qed
  then have "0 \<notin> \<Union> (set ` set ?segs)" by auto
  then have "0 \<notin> set (join_with [SLASH] ?segs)"
    using set_join_with [of SLASH ?segs] by (auto simp: SLASH_def)
  then show ?thesis unfolding eq by (simp add: SLASH_def)
qed

text \<open>Appending entries to the store changes no binding, and so no walk that found its entry.\<close>

lemma map_of_append_Some: "map_of fs k = Some v \<Longrightarrow> map_of (fs @ extra) k = Some v"
  by (simp add: map_add_Some_iff)

lemma follow_append:
  "follow n fs k = Some (k', Some e) \<Longrightarrow> follow n (fs @ extra) k = Some (k', Some e)"
proof (induction n arbitrary: k)
  case 0
  then show ?case by simp
next
  case (Suc n)
  show ?case
  proof (cases "named fs k")
    case None
    with Suc.prems show ?thesis by simp
  next
    case (Some r)
    then have m: "named (fs @ extra) k = Some r" by (rule named_append)
    obtain k0 en where r: "r = (k0, en)" by (cases r)
    show ?thesis
    proof (cases en)
      case (Symlink t)
      with Some m r Suc show ?thesis by simp
    qed (use Some m r Suc.prems in auto)
  qed
qed

lemma all_dirs_append: "all_dirs fs ks \<Longrightarrow> all_dirs (fs @ extra) ks"
  unfolding all_dirs_def using follow_append by blast

lemma mkdir_chain_all_dirs:
  "all_dirs fs ks \<Longrightarrow> mkdir_chain p fs ks = (Inr (), fs)"
  by (induction ks) (auto simp: all_dirs_def)

lemma mkdir_chain_result:
  "mkdir_chain p fs ks = (Inr (), fs') \<Longrightarrow> all_dirs fs' ks \<and> (\<exists>extra. fs' = fs @ extra)"
proof (induction ks arbitrary: fs)
  case Nil
  then show ?case by (simp add: all_dirs_def)
next
  case (Cons k ks)
  show ?case
  proof (cases "follow 40 fs k")
    case None
    with Cons.prems show ?thesis by simp
  next
    case (Some r)
    obtain k' eo where r: "r = (k', eo)" by (cases r)
    show ?thesis
    proof (cases eo)
      case None
      with Some r Cons.prems have fresh: "map_of fs k = None"
        and rec: "mkdir_chain p (fs @ [(k, Dir)]) ks = (Inr (), fs')"
        by (auto split: if_splits)
      from Cons.IH [OF rec] obtain extra where ad: "all_dirs fs' ks" and ext: "fs' = (fs @ [(k, Dir)]) @ extra"
        by blast
      have "map_of fs' k = Some Dir"
        unfolding ext by (rule map_of_append_Some) (simp add: fresh map_add_def)
      then have "follow 40 fs' k = Some (k, Some Dir)"
        by (rule follow_dir)
      with ad ext show ?thesis by (auto simp: all_dirs_def)
    next
      case (Some en)
      show ?thesis
      proof (cases en)
        case Dir
        with \<open>follow 40 fs k = Some r\<close> r Some Cons.prems
        have f: "follow 40 fs k = Some (k', Some Dir)" and rec: "mkdir_chain p fs ks = (Inr (), fs')"
          by auto
        from Cons.IH [OF rec] obtain extra where ad: "all_dirs fs' ks" and ext: "fs' = fs @ extra"
          by blast
        from f have "follow 40 fs' k = Some (k', Some Dir)"
          unfolding ext by (rule follow_append)
        with ad ext show ?thesis by (auto simp: all_dirs_def)
      qed (use \<open>follow 40 fs k = Some r\<close> r Some Cons.prems in auto)
    qed
  qed
qed

lemma mkdir_chain_error:
  "mkdir_chain p fs ks = (Inl e, fs') \<Longrightarrow> \<not> is_validation_error e"
  by (induction ks arbitrary: fs) (auto split: option.splits entry.splits if_splits)

lemma mkdir_recursive_error:
  "mkdir_recursive cwd fs p = (Inl e, fs') \<Longrightarrow> \<not> is_validation_error e"
  by (auto simp: mkdir_recursive_def split: if_splits dest: mkdir_chain_error)

lemma checkSymlink_error: "checkSymlink cwd fs p = Inl e \<Longrightarrow> \<not> is_validation_error e"
  by (auto simp: checkSymlink_def lstat_def split: sum.splits if_splits option.splits)

lemma validateProperties_error: "validateProperties ps = Inl e \<Longrightarrow> \<not> is_validation_error e"
  by (induction ps rule: validateProperties.induct) (auto split: if_splits)

lemma buildContent_error: "buildContent c props = Inl e \<Longrightarrow> \<not> is_validation_error e"
  by (auto simp: buildContent_def split: option.splits if_splits sum.splits dest: validateProperties_error)

lemma writeFile_wx_cases:
  "(\<exists>code p' q. writeFile_wx cwd fs p t = Inl (Unexpected code p' q)) \<or>
   (0 \<notin> set p \<and> map_of fs (path_resolve cwd p) = None \<and>
    writeFile_wx cwd fs p t = Inr (fs @ [(path_resolve cwd p, File (toWellFormed t) 1)]))"
  by (auto simp: writeFile_wx_def Let_def split: option.splits)

lemma validatePath_value: "validatePath cwd svc p = Inr v \<Longrightarrow> v = path_resolve cwd p"
  by (auto simp: validatePath_def Let_def split: if_splits)

text \<open>Reading a page by its name when its file is in the pages folder.\<close>

lemma readPage_of_page_file:
  assumes ok: "cwd_ok cwd"
    and nm: "SLASH \<notin> set nm"
    and vp: "validatePath cwd svc (path_join (pagesPath svc) (nm @ js ''.md'')) = Inr v"
    and z: "0 \<notin> set (path_join (pagesPath svc) (nm @ js ''.md''))"
    and m: "map_of fs (path_resolve cwd (path_join (pagesPath svc) (nm @ js ''.md''))) = Some (File t n)"
  shows "readPage cwd svc fs nm =
     Inr \<lparr>path = replace_first v (graphPath svc @ js ''/'') [],
          name = basename v (js ''.md''),
          tags = extractTags t,
          links = extractLinks t,
          backlinks = map name (filter (\<lambda>p. basename v (js ''.md'') \<in> set (links p)) (collectAllPages cwd svc fs)),
          isJournal = includes_js v (js ''/journals/''),
          content = snd (parseProperties t),
          properties = fst (parseProperties t)\<rparr>"
proof -
  let ?fp = "path_join (pagesPath svc) (nm @ js ''.md'')"
  from ok have abs: "isAbsolute cwd" and nn: "0 \<notin> set cwd" by (simp_all add: cwd_ok_def)
  have v: "v = path_resolve cwd ?fp" using vp by (rule validatePath_value)
  have zv: "0 \<notin> set v" unfolding v using abs nn z by (rule no_nul_resolve)
  have kv: "path_resolve cwd v = v" unfolding v using abs by (rule path_resolve_idem)
  have mv: "map_of fs (path_resolve cwd v) = Some (File t n)" using m kv v by simp
  have st: "stat cwd fs v = Inr (stats_of (File t n))"
    using zv mv by (simp add: stat_def follow_file)
  have tc: "try_candidate cwd svc fs ?fp = Some (Inr v)"
    by (simp add: try_candidate_def vp st)
  have rp: "resolvePath cwd svc fs nm = Inr v"
    using nm by (simp add: resolvePath_def tc)
  have cs: "checkSymlink cwd fs v = Inr ()"
    using zv mv by (simp add: checkSymlink_def lstat_plain)
  have rf: "readFile cwd fs v = Inr t"
    using zv mv by (rule readFile_of_file)
  show ?thesis
    unfolding readPage_def
    by (simp only: rp cs rf st sum.case Let_def split_beta)
qed

text \<open>The steps of \<^verbatim>\<open>createPage\<close> once the three validations have passed.\<close>

lemma createPage_validated:
  assumes "validatePageName nm = Inr ()"
    and "validatePath cwd svc (path_join (pagesPath svc) (nm @ js ''.md'')) = Inr v"
    and "validateContentSize c = Inr ()"
  shows "createPage cwd svc fs nm c props =
     (case mkdir_recursive cwd fs (pagesPath svc) of
        (Inl e, fs1) \<Rightarrow> (Inl e, fs1)
      | (Inr _, fs1) \<Rightarrow>
     (case checkSymlink cwd fs1 (path_join (pagesPath svc) (nm @ js ''.md'')) of
        Inl e \<Rightarrow> (Inl e, fs1)
      | Inr _ \<Rightarrow>
     (case buildContent c props of
        Inl e \<Rightarrow> (Inl e, fs1)
      | Inr fullContent \<Rightarrow>
     (case writeFile_wx cwd fs1 (path_join (pagesPath svc) (nm @ js ''.md'')) fullContent of
        Inl e \<Rightarrow>
          ((case e of Unexpected EEXIST _ _ \<Rightarrow> Inl (AlreadyExists nm) | _ \<Rightarrow> Inl e), fs1)
      | Inr fs2 \<Rightarrow> (readPage cwd svc fs2 nm, fs2)))))"
  unfolding createPage_def by (simp only: assms sum.case Let_def)

lemma createPage_early:
  assumes "validatePageName nm = Inl e \<or>
     (validatePageName nm = Inr () \<and>
      validatePath cwd svc (path_join (pagesPath svc) (nm @ js ''.md'')) = Inl e) \<or>
     (validatePageName nm = Inr () \<and>
      (\<exists>v. validatePath cwd svc (path_join (pagesPath svc) (nm @ js ''.md'')) = Inr v) \<and>
      validateContentSize c = Inl e)"
  shows "createPage cwd svc fs nm c props = (Inl e, fs)"
  using assms unfolding createPage_def by (auto simp: Let_def)

lemma validation_error_kinds:
  "validatePageName nm = Inl e \<Longrightarrow> is_validation_error e"
  "validatePath cwd svc p = Inl e \<Longrightarrow> is_validation_error e"
  "validateContentSize c = Inl e \<Longrightarrow> is_validation_error e"
  by (auto simp: validatePageName_def validatePath_def validateContentSize_def Let_def split: if_splits)

text \<open>
  What a call of \<^verbatim>\<open>createPage\<close> comes to once the validations have passed: a failure
  that is none of the three validation errors, or the file written and the page read.
\<close>

lemma createPage_late:
  assumes ok: "cwd_ok cwd"
    and nm: "validatePageName nm = Inr ()"
    and vp: "validatePath cwd svc (path_join (pagesPath svc) (nm @ js ''.md'')) = Inr v"
    and sz: "validateContentSize c = Inr ()"
  shows "(\<exists>e fs1. createPage cwd svc fs nm c props = (Inl e, fs1) \<and> \<not> is_validation_error e) \<or>
     (\<exists>fsA full pg.
        mkdir_recursive cwd fs (pagesPath svc) = (Inr (), fsA) \<and>
        checkSymlink cwd fsA (path_join (pagesPath svc) (nm @ js ''.md'')) = Inr () \<and>
        buildContent c props = Inr full \<and>
        0 \<notin> set (path_join (pagesPath svc) (nm @ js ''.md'')) \<and>
        map_of fsA (path_resolve cwd (path_join (pagesPath svc) (nm @ js ''.md''))) = None \<and>
        createPage cwd svc fs nm c props =
          (Inr pg, fsA @ [(path_resolve cwd (path_join (pagesPath svc) (nm @ js ''.md'')), File (toWellFormed full) 1)]) \<and>
        readPage cwd svc
          (fsA @ [(path_resolve cwd (path_join (pagesPath svc) (nm @ js ''.md'')), File (toWellFormed full) 1)]) nm = Inr pg \<and>
        content pg = snd (parseProperties (toWellFormed full)))"
proof -
  let ?fp = "path_join (pagesPath svc) (nm @ js ''.md'')"
  note chain = createPage_validated [OF nm vp sz, of fs props]
  obtain r fsA where mk: "mkdir_recursive cwd fs (pagesPath svc) = (r, fsA)"
    by (cases "mkdir_recursive cwd fs (pagesPath svc)")
  show ?thesis
  proof (cases r)
    case (Inl e)
    with mk chain mkdir_recursive_error [of cwd fs "pagesPath svc" e fsA] show ?thesis by auto
  next
    case (Inr u)
    with mk have mk': "mkdir_recursive cwd fs (pagesPath svc) = (Inr (), fsA)" by simp
    show ?thesis
    proof (cases "checkSymlink cwd fsA ?fp")
      case (Inl e)
      with mk' chain checkSymlink_error [of cwd fsA ?fp e] show ?thesis by auto
    next
      case cs: (Inr u')
      then have cs': "checkSymlink cwd fsA ?fp = Inr ()" by simp
      show ?thesis
      proof (cases "buildContent c props")
        case (Inl e)
        with mk' cs chain buildContent_error [of c props e] show ?thesis by auto
      next
        case bc: (Inr full)
        from writeFile_wx_cases [of cwd fsA ?fp full]
        show ?thesis
        proof
          assume "\<exists>code p' q. writeFile_wx cwd fsA ?fp full = Inl (Unexpected code p' q)"
          then obtain code p' q where w: "writeFile_wx cwd fsA ?fp full = Inl (Unexpected code p' q)"
            by blast
          have "createPage cwd svc fs nm c props =
              ((case Unexpected code p' q of Unexpected EEXIST _ _ \<Rightarrow> Inl (AlreadyExists nm)
                | _ \<Rightarrow> Inl (Unexpected code p' q)), fsA)"
            unfolding chain by (simp only: mk' cs bc w sum.case prod.case)
          then show ?thesis by (cases code) auto
        next
          let ?fs2 = "fsA @ [(path_resolve cwd ?fp, File (toWellFormed full) 1)]"
          assume "0 \<notin> set ?fp \<and> map_of fsA (path_resolve cwd ?fp) = None \<and>
            writeFile_wx cwd fsA ?fp full = Inr ?fs2"
          then have z: "0 \<notin> set ?fp" and fresh: "map_of fsA (path_resolve cwd ?fp) = None"
            and w: "writeFile_wx cwd fsA ?fp full = Inr ?fs2" by simp_all
          have m: "map_of ?fs2 (path_resolve cwd ?fp) = Some (File (toWellFormed full) 1)"
            using fresh by (simp add: map_add_def)
          from validatePageName_ok [OF nm] have sl: "SLASH \<notin> set nm" by simp
          note rd = readPage_of_page_file [OF ok sl vp z m]
          have cp: "createPage cwd svc fs nm c props = (readPage cwd svc ?fs2 nm, ?fs2)"
            unfolding chain by (simp only: mk' cs bc w sum.case prod.case)
          show ?thesis
            apply (rule disjI2)
            apply (rule exI [of _ fsA], rule exI [of _ full])
            using mk' cs' bc z fresh cp rd by simp
        qed
      qed
    qed
  qed
qed

text \<open>
  Claim C10. When the name validation, the path validation or the size check of
  \<^verbatim>\<open>createPage\<close> fails, taken in this order, the call returns that error and the store it
  was given: no directory is made and no file written. With a working directory that is
  an absolute path without NUL, the converse holds as well: whenever \<^verbatim>\<open>createPage\<close>
  fails with \<open>InvalidName\<close>, \<open>PathEscape\<close> or \<open>ContentTooLarge\<close>, the store is unchanged,
  for no later step fails with one of these.
\<close>

theorem C10_failed_validation_leaves_the_store_unchanged:
  "((validatePageName nm = Inl e \<or>
     (validatePageName nm = Inr () \<and>
      validatePath cwd svc (path_join (pagesPath svc) (nm @ js ''.md'')) = Inl e) \<or>
     (validatePageName nm = Inr () \<and>
      (\<exists>v. validatePath cwd svc (path_join (pagesPath svc) (nm @ js ''.md'')) = Inr v) \<and>
      validateContentSize c = Inl e)) \<longrightarrow>
    is_validation_error e \<and> createPage cwd svc fs nm c props = (Inl e, fs)) \<and>
   (cwd_ok cwd \<and> fst (createPage cwd svc fs nm c props) = Inl e' \<and> is_validation_error e' \<longrightarrow>
    snd (createPage cwd svc fs nm c props) = fs)"
proof (intro conjI impI)
  assume a: "validatePageName nm = Inl e \<or>
     (validatePageName nm = Inr () \<and>
      validatePath cwd svc (path_join (pagesPath svc) (nm @ js ''.md'')) = Inl e) \<or>
     (validatePageName nm = Inr () \<and>
      (\<exists>v. validatePath cwd svc (path_join (pagesPath svc) (nm @ js ''.md'')) = Inr v) \<and>
      validateContentSize c = Inl e)"
  then show "is_validation_error e"
    using validation_error_kinds by blast
  from a show "createPage cwd svc fs nm c props = (Inl e, fs)"
    by (rule createPage_early)
next
  let ?fp = "path_join (pagesPath svc) (nm @ js ''.md'')"
  assume b: "cwd_ok cwd \<and> fst (createPage cwd svc fs nm c props) = Inl e' \<and> is_validation_error e'"
  show "snd (createPage cwd svc fs nm c props) = fs"
  proof (cases "validatePageName nm")
    case (Inl x)
    then show ?thesis using createPage_early [of nm x cwd svc c fs props] by simp
  next
    case nm: (Inr u)
    show ?thesis
    proof (cases "validatePath cwd svc ?fp")
      case (Inl x)
      with nm show ?thesis using createPage_early [of nm x cwd svc c fs props] by simp
    next
      case vp: (Inr v)
      show ?thesis
      proof (cases "validateContentSize c")
        case (Inl x)
        with nm vp show ?thesis using createPage_early [of nm x cwd svc c fs props] by auto
      next
        case sz: (Inr u')
        from nm vp sz b createPage_late [of cwd nm svc v c fs props]
        show ?thesis by auto
      qed
    qed
  qed
qed

text \<open>
  The theorem at a store that holds the graph directory and its parent only: a name with a slash fails
  with \<open>InvalidName\<close>, a text of one byte more than 10 MiB fails with \<open>ContentTooLarge\<close>,
  and after either the store is the one given.
\<close>

theorem C10_failed_validation_leaves_the_store_unchanged_witness:
  "createPage (js ''/srv'') (GraphService (js ''/srv/graph'')) [(js ''/srv'', Dir), (js ''/srv/graph'', Dir)]
     (js ''a/b'') (js ''x'') None =
     (Inl (InvalidName ForbiddenChars), [(js ''/srv'', Dir), (js ''/srv/graph'', Dir)]) \<and>
   createPage (js ''/srv'') (GraphService (js ''/srv/graph'')) [(js ''/srv'', Dir), (js ''/srv/graph'', Dir)]
     (js ''A'') (big_text @ js ''x'') None =
     (Inl (ContentTooLarge 10485761), [(js ''/srv'', Dir), (js ''/srv/graph'', Dir)]) \<and>
   snd (createPage (js ''/srv'') (GraphService (js ''/srv/graph'')) [(js ''/srv'', Dir), (js ''/srv/graph'', Dir)]
     (js ''A'') (big_text @ js ''x'') None) = [(js ''/srv'', Dir), (js ''/srv/graph'', Dir)]"
proof -
  let ?cwd = "js ''/srv''" and ?svc = "GraphService (js ''/srv/graph'')"
  let ?fs = "[(js ''/srv'', Dir), (js ''/srv/graph'', Dir)]"
  note inst = C10_failed_validation_leaves_the_store_unchanged
  have n1: "validatePageName (js ''a/b'') = Inl (InvalidName ForbiddenChars)"
    by code_simp
  have 1: "createPage ?cwd ?svc ?fs (js ''a/b'') (js ''x'') None = (Inl (InvalidName ForbiddenChars), ?fs)"
    using inst [where nm = "js ''a/b''" and e = "InvalidName ForbiddenChars" and cwd = ?cwd and svc = ?svc
        and c = "js ''x''" and fs = ?fs and props = None] n1
    by blast
  have n2: "validatePageName (js ''A'') = Inr ()"
    by code_simp
  have v2: "validatePath ?cwd ?svc (path_join (pagesPath ?svc) (js ''A'' @ js ''.md'')) =
      Inr (js ''/srv/graph/pages/A.md'')"
    by (simp add: validatePath_def GraphService_def path_eval)
  have b: "byteLength (big_text @ js ''x'') = 10485761"
    unfolding big_text_def byteLength_big_text by (simp add: js_def unit_bytes_def)
  have s2: "validateContentSize (big_text @ js ''x'') = Inl (ContentTooLarge 10485761)"
    by (simp add: validateContentSize_def b MAX_CONTENT_SIZE_def)
  have 2: "createPage ?cwd ?svc ?fs (js ''A'') (big_text @ js ''x'') None =
      (Inl (ContentTooLarge 10485761), ?fs)"
    using inst [where nm = "js ''A''" and e = "ContentTooLarge 10485761" and cwd = ?cwd and svc = ?svc
        and c = "big_text @ js ''x''" and fs = ?fs and props = None]
      n2 v2 s2
    by blast
  have ok: "cwd_ok ?cwd"
    by (simp add: cwd_ok_def isAbsolute_def js_def SLASH_def)
  have 3: "snd (createPage ?cwd ?svc ?fs (js ''A'') (big_text @ js ''x'') None) = ?fs"
    using inst [where nm = "js ''A''" and e' = "ContentTooLarge 10485761" and cwd = ?cwd and svc = ?svc
        and c = "big_text @ js ''x''" and fs = ?fs and props = None]
      ok 2
    by simp
  from 1 2 3 show ?thesis by blast
qed

text \<open>
  Claim C3, as the code has it. The working directory is an absolute path without NUL.
  After \<^verbatim>\<open>createPage\<close> has created the page \<open>nm\<close> with the text \<open>c\<close> and no properties, a
  second \<^verbatim>\<open>createPage\<close> for \<open>nm\<close>, with any text within the size cap, fails with
  \<open>AlreadyExists\<close> and leaves the store as it is; the file still holds \<open>c\<close> (as UTF-8 reads
  it back), and \<^verbatim>\<open>readPage\<close> returns the page the first call returned. The content of
  that page is the body of \<open>c\<close>: the text after its leading property lines, as
  \<^verbatim>\<open>parseProperties\<close> splits it.
\<close>

theorem C3_second_create_fails_and_changes_nothing:
  assumes "cwd_ok cwd"
    and "createPage cwd svc fs nm c None = (Inr pg, fs1)"
    and "byteLength c' \<le> MAX_CONTENT_SIZE"
  shows "createPage cwd svc fs1 nm c' None = (Inl (AlreadyExists nm), fs1) \<and>
    readPage cwd svc fs1 nm = Inr pg \<and>
    readFile cwd fs1 (path_join (pagesPath svc) (nm @ js ''.md'')) = Inr (toWellFormed c) \<and>
    content pg = snd (parseProperties (toWellFormed c))"
proof -
  let ?fp = "path_join (pagesPath svc) (nm @ js ''.md'')"
  let ?key = "path_resolve cwd ?fp"
  from assms(2) obtain u where nm: "validatePageName nm = Inr u"
    using createPage_early [of nm _ cwd svc c fs None] by (cases "validatePageName nm") auto
  then have nm: "validatePageName nm = Inr ()" by simp
  from assms(2) nm obtain v where vp: "validatePath cwd svc ?fp = Inr v"
    using createPage_early [of nm _ cwd svc c fs None] by (cases "validatePath cwd svc ?fp") auto
  from assms(2) nm vp have sz: "validateContentSize c = Inr ()"
    using createPage_early [of nm _ cwd svc c fs None] by (cases "validateContentSize c") auto
  have sz': "validateContentSize c' = Inr ()"
    using assms(3) by (simp add: validateContentSize_def)
  from createPage_late [OF assms(1) nm vp sz, of fs None] assms(2)
  obtain fsA where mk: "mkdir_recursive cwd fs (pagesPath svc) = (Inr (), fsA)"
    and z: "0 \<notin> set ?fp"
    and fs1: "fs1 = fsA @ [(?key, File (toWellFormed c) 1)]"
    and rd: "readPage cwd svc fs1 nm = Inr pg"
    and body: "content pg = snd (parseProperties (toWellFormed c))"
    by (auto simp: buildContent_def)
  from mk have zp: "0 \<notin> set (pagesPath svc)"
    and ch: "mkdir_chain (pagesPath svc) fs (ancestors (path_resolve cwd (pagesPath svc))) = (Inr (), fsA)"
    by (auto simp: mkdir_recursive_def split: if_splits)
  from mkdir_chain_result [OF ch] have "all_dirs fsA (ancestors (path_resolve cwd (pagesPath svc)))"
    by blast
  then have "all_dirs fs1 (ancestors (path_resolve cwd (pagesPath svc)))"
    unfolding fs1 by (rule all_dirs_append)
  then have mk1: "mkdir_recursive cwd fs1 (pagesPath svc) = (Inr (), fs1)"
    using zp by (simp add: mkdir_recursive_def mkdir_chain_all_dirs)
  have m: "map_of fs1 ?key = Some (File (toWellFormed c) 1)"
  proof (cases "map_of fsA ?key")
    case None
    then show ?thesis unfolding fs1 by (simp add: map_add_def)
  next
    case (Some en)
    from createPage_late [OF assms(1) nm vp sz, of fs None] assms(2) mk
    have "map_of fsA ?key = None" by auto
    with Some show ?thesis by simp
  qed
  have cs1: "checkSymlink cwd fs1 ?fp = Inr ()"
    using z m by (simp add: checkSymlink_def lstat_plain)
  have w1: "writeFile_wx cwd fs1 ?fp c' = Inl (Unexpected EEXIST (js ''open'') ?fp)"
    using z m by (simp add: writeFile_wx_def)
  have bc: "buildContent c' None = Inr c'"
    by (simp add: buildContent_def)
  have second: "createPage cwd svc fs1 nm c' None = (Inl (AlreadyExists nm), fs1)"
    unfolding createPage_validated [OF nm vp sz', of fs1 None]
    by (simp only: mk1 cs1 bc w1 sum.case prod.case error.case fs_code.case)
  have rf: "readFile cwd fs1 ?fp = Inr (toWellFormed c)"
    using z m by (rule readFile_of_file)
  from second rd rf body show ?thesis by blast
qed

theorem C3_second_create_fails_and_changes_nothing_witness:
  "createPage (js ''/srv'') (GraphService (js ''/srv/graph''))
     [(js ''/srv'', Dir), (js ''/srv/graph'', Dir), (js ''/srv/graph/pages'', Dir),
      (js ''/srv/graph/pages/Goals.md'', File (js ''first'') 1)]
     (js ''Goals'') (js ''second'') None =
     (Inl (AlreadyExists (js ''Goals'')),
      [(js ''/srv'', Dir), (js ''/srv/graph'', Dir), (js ''/srv/graph/pages'', Dir),
       (js ''/srv/graph/pages/Goals.md'', File (js ''first'') 1)]) \<and>
   readPage (js ''/srv'') (GraphService (js ''/srv/graph''))
     [(js ''/srv'', Dir), (js ''/srv/graph'', Dir), (js ''/srv/graph/pages'', Dir),
      (js ''/srv/graph/pages/Goals.md'', File (js ''first'') 1)] (js ''Goals'') =
     Inr \<lparr>path = js ''pages/Goals.md'', name = js ''Goals'', tags = [], links = [], backlinks = [],
          isJournal = False, content = js ''first'', properties = []\<rparr>"
proof -
  let ?cwd = "js ''/srv''" and ?svc = "GraphService (js ''/srv/graph'')"
  let ?fs1 = "[(js ''/srv'', Dir), (js ''/srv/graph'', Dir), (js ''/srv/graph/pages'', Dir),
      (js ''/srv/graph/pages/Goals.md'', File (js ''first'') 1)]"
  let ?pg = "\<lparr>path = js ''pages/Goals.md'', name = js ''Goals'', tags = [], links = [], backlinks = [],
          isJournal = False, content = js ''first'', properties = []\<rparr>"
  have ok: "cwd_ok ?cwd"
    by (simp add: cwd_ok_def isAbsolute_def js_def SLASH_def)
  have first: "createPage ?cwd ?svc [(js ''/srv'', Dir), (js ''/srv/graph'', Dir)] (js ''Goals'') (js ''first'') None =
      (Inr ?pg, ?fs1)"
    by code_simp
  have size: "byteLength (js ''second'') \<le> MAX_CONTENT_SIZE"
    by code_simp
  from C3_second_create_fails_and_changes_nothing [OF ok first size]
  show ?thesis by blast
qed

text \<open>
  Claim C3 as stated fails: the page is created with the text \<^verbatim>\<open>a:: b\<close>, the second call
  fails with \<open>AlreadyExists\<close>, and \<^verbatim>\<open>readPage\<close> does not return the content \<^verbatim>\<open>a:: b\<close>. The
  line is read as a property and the content is empty.
\<close>

theorem C3_read_returns_the_body_not_the_text:
  "createPage (js ''/srv'') (GraphService (js ''/srv/graph'')) [(js ''/srv'', Dir), (js ''/srv/graph'', Dir)]
     (js ''P'') (js ''a:: b'') None =
     (Inr \<lparr>path = js ''pages/P.md'', name = js ''P'', tags = [], links = [], backlinks = [],
           isJournal = False, content = js '''', properties = [(js ''a'', js ''b'')]\<rparr>,
      [(js ''/srv'', Dir), (js ''/srv/graph'', Dir), (js ''/srv/graph/pages'', Dir),
       (js ''/srv/graph/pages/P.md'', File (js ''a:: b'') 1)]) \<and>
   createPage (js ''/srv'') (GraphService (js ''/srv/graph''))
     [(js ''/srv'', Dir), (js ''/srv/graph'', Dir), (js ''/srv/graph/pages'', Dir),
      (js ''/srv/graph/pages/P.md'', File (js ''a:: b'') 1)]
     (js ''P'') (js ''other'') None =
     (Inl (AlreadyExists (js ''P'')),
      [(js ''/srv'', Dir), (js ''/srv/graph'', Dir), (js ''/srv/graph/pages'', Dir),
       (js ''/srv/graph/pages/P.md'', File (js ''a:: b'') 1)]) \<and>
   readPage (js ''/srv'') (GraphService (js ''/srv/graph''))
     [(js ''/srv'', Dir), (js ''/srv/graph'', Dir), (js ''/srv/graph/pages'', Dir),
      (js ''/srv/graph/pages/P.md'', File (js ''a:: b'') 1)] (js ''P'') =
     Inr \<lparr>path = js ''pages/P.md'', name = js ''P'', tags = [], links = [], backlinks = [],
          isJournal = False, content = js '''', properties = [(js ''a'', js ''b'')]\<rparr> \<and>
   js '''' \<noteq> js ''a:: b''"
  by code_simp

section \<open>Properties of the checks before a file is touched\<close>



















end
